theory Spec2Isabelle
  imports Complex_Main "HOL-Library.Word"
begin

section \<open>Strings and JSON values\<close>

text \<open>
  A JavaScript string is a sequence of UTF-16 code units. String literals of the source
  are written \<open>js ''...''\<close>; the two Korean error messages are given by their code units.
\<close>

type_synonym jstr = "16 word list"

definition js :: "string \<Rightarrow> jstr" where
  "js s = map (\<lambda>c. of_nat (of_char c)) s"

text \<open>A string-or-null used as a condition: \<open>null\<close> and the empty string are falsy.\<close>

fun truthy :: "jstr option \<Rightarrow> bool" where
  "truthy None = False"
| "truthy (Some x) = (x \<noteq> [])"

text \<open>The values a field of the oracle's JSON reply can hold, as far as the source
  distinguishes them (\<open>typeof v === "number"\<close>, \<open>typeof v === "string"\<close>).\<close>

datatype jval = JUndefined | JNull | JNumber real | JString jstr | JOther

section \<open>parseBestMove\<close>

text \<open>\<open>\s\<close> of a regular expression and \<open>String.prototype.trim\<close> use the same set:
  the white space and line terminator code units of ECMAScript.\<close>

definition isWhiteSpace :: "16 word \<Rightarrow> bool" where
  "isWhiteSpace c \<longleftrightarrow> c \<in> {9, 10, 11, 12, 13, 32, 160, 5760, 8192, 8193, 8194, 8195, 8196,
     8197, 8198, 8199, 8200, 8201, 8202, 8232, 8233, 8239, 8287, 12288, 65279}"

definition trim :: "jstr \<Rightarrow> jstr" where
  "trim s = rev (dropWhile isWhiteSpace (rev (dropWhile isWhiteSpace s)))"

text \<open>\<open>s.split(/\s+/)\<close>: the pieces between maximal runs of white space. A run at the
  start or the end of \<open>s\<close> leaves an empty first or last piece, and the empty string
  gives one empty piece.\<close>

function split_ws :: "jstr \<Rightarrow> jstr list" where
  "split_ws s =
     (let w = takeWhile (\<lambda>c. \<not> isWhiteSpace c) s;
          r = dropWhile (\<lambda>c. \<not> isWhiteSpace c) s
      in if r = [] then [w] else w # split_ws (dropWhile isWhiteSpace r))"
  by pat_completeness auto
termination
proof (relation "measure length")
  show "wf (measure length)" by simp
next
  fix s :: jstr and w r
  assume r: "r = dropWhile (\<lambda>c. \<not> isWhiteSpace c) s" and ne: "r \<noteq> []"
  have "isWhiteSpace (hd r)"
    using r ne hd_dropWhile[of "\<lambda>c. \<not> isWhiteSpace c" s] by auto
  then have "length (dropWhile isWhiteSpace r) < length r"
    using ne by (cases r) (auto simp: le_imp_less_Suc length_dropWhile_le)
  moreover have "length r \<le> length s"
    using r by (simp add: length_dropWhile_le)
  ultimately show "(dropWhile isWhiteSpace r, s) \<in> measure length" by simp
qed

declare split_ws.simps [simp del]

text \<open>\<open>toLowerCase\<close> is modelled on the letters A-Z. The source only compares its result
  with \<open>"bestmove"\<close>, and no code unit outside A-Z lower-cases to one of the letters
  b, e, s, t, m, o, v.\<close>

definition toLowerCase :: "jstr \<Rightarrow> jstr" where
  "toLowerCase s = map (\<lambda>c. if 65 \<le> c \<and> c \<le> 90 then c + 32 else c) s"

text \<open>\<open>findIndex\<close>, with \<open>None\<close> for the source's \<open>-1\<close>.\<close>

fun findIndex :: "('a \<Rightarrow> bool) \<Rightarrow> 'a list \<Rightarrow> nat option" where
  "findIndex P [] = None"
| "findIndex P (x # xs) = (if P x then Some 0 else map_option Suc (findIndex P xs))"

text \<open>\<open>/^[a-h][1-8][a-h][1-8][qrbn]?$/.test(u)\<close>.\<close>

definition isFile :: "16 word \<Rightarrow> bool" where
  "isFile c \<longleftrightarrow> 97 \<le> c \<and> c \<le> 104"

definition isRank :: "16 word \<Rightarrow> bool" where
  "isRank c \<longleftrightarrow> 49 \<le> c \<and> c \<le> 56"

definition isPromo :: "16 word \<Rightarrow> bool" where
  "isPromo c \<longleftrightarrow> c = 113 \<or> c = 114 \<or> c = 98 \<or> c = 110"

fun uci_pattern :: "jstr \<Rightarrow> bool" where
  "uci_pattern [a, b, c, d] = (isFile a \<and> isRank b \<and> isFile c \<and> isRank d)"
| "uci_pattern [a, b, c, d, e] = (isFile a \<and> isRank b \<and> isFile c \<and> isRank d \<and> isPromo e)"
| "uci_pattern _ = False"

definition parseBestMove :: "jstr option \<Rightarrow> jstr option" where
  "parseBestMove best =
     (case best of
        None \<Rightarrow> None
      | Some b \<Rightarrow>
          if b = [] then None
          else
            let parts = split_ws (trim b);
                idx = findIndex (\<lambda>p. toLowerCase p = js ''bestmove'') parts;
                uci = (case idx of
                         Some i \<Rightarrow>
                           if i + 1 < length parts \<and> parts ! (i + 1) \<noteq> []
                           then parts ! (i + 1) else parts ! 0
                       | None \<Rightarrow> parts ! 0)
            in if uci_pattern uci then Some uci else None)"

subsection \<open>The token as the specification words it\<close>

text \<open>The white-space separated words of a string: its maximal runs of code units that
  are not white space.\<close>

function spec_words :: "jstr \<Rightarrow> jstr list" where
  "spec_words s =
     (let t = dropWhile isWhiteSpace s
      in if t = [] then []
         else takeWhile (\<lambda>c. \<not> isWhiteSpace c) t # spec_words (dropWhile (\<lambda>c. \<not> isWhiteSpace c) t))"
  by pat_completeness auto
termination
proof (relation "measure length")
  show "wf (measure length)" by simp
next
  fix s t :: jstr
  assume t: "t = dropWhile isWhiteSpace s" and ne: "t \<noteq> []"
  have "\<not> isWhiteSpace (hd t)"
    using t ne hd_dropWhile[of isWhiteSpace s] by auto
  then have "length (dropWhile (\<lambda>c. \<not> isWhiteSpace c) t) < length t"
    using ne by (cases t) (auto simp: le_imp_less_Suc length_dropWhile_le)
  moreover have "length t \<le> length s"
    using t by (simp add: length_dropWhile_le)
  ultimately show "(dropWhile (\<lambda>c. \<not> isWhiteSpace c) t, s) \<in> measure length" by simp
qed

declare spec_words.simps [simp del]

text \<open>The candidate token: the word after the first word that is \<open>bestmove\<close> in any
  letter case, and the first word when there is no such word or nothing follows it.\<close>

definition spec_candidate :: "jstr \<Rightarrow> jstr option" where
  "spec_candidate s =
     (case spec_words s of
        [] \<Rightarrow> None
      | w # ws \<Rightarrow>
          (case dropWhile (\<lambda>p. toLowerCase p \<noteq> js ''bestmove'') (w # ws) of
             _ # t # _ \<Rightarrow> Some t
           | _ \<Rightarrow> Some w))"

text \<open>The strict pattern: four or five code units, file, rank, file, rank and an
  optional promotion letter.\<close>

definition spec_pattern :: "jstr \<Rightarrow> bool" where
  "spec_pattern u \<longleftrightarrow>
     (length u = 4 \<or> length u = 5) \<and>
     isFile (u ! 0) \<and> isRank (u ! 1) \<and> isFile (u ! 2) \<and> isRank (u ! 3) \<and>
     (length u = 5 \<longrightarrow> isPromo (u ! 4))"

definition spec_parse :: "jstr option \<Rightarrow> jstr option" where
  "spec_parse best =
     (case best of
        None \<Rightarrow> None
      | Some b \<Rightarrow>
          (case spec_candidate b of
             None \<Rightarrow> None
           | Some u \<Rightarrow> if spec_pattern u then Some u else None))"

section \<open>The rules engine\<close>

text \<open>
  The controller imports its rules engine (\<open>Chess\<close>, \<open>Square\<close>, \<open>Move\<close>) from the library
  \<open>chess.js\<close>. The library is a parameter of the model: a record of the operations the
  controller calls, over any type \<open>'p\<close> of what a \<open>Chess\<close> object holds. A \<open>Square\<close> is a
  string. A \<open>Move\<close> has the fields the controller reads.
\<close>

datatype color = White | Black

record piece =
  piece_type :: jstr
  piece_color :: color

record chess_move =
  from_sq :: jstr
  to_sq :: jstr
  promotion :: "jstr option"
  san :: jstr

text \<open>\<open>game.move(...)\<close> on an object holding \<open>p\<close>: \<open>Moved p' m\<close> when the object now holds
  \<open>p'\<close> and the call returned the move \<open>m\<close>; \<open>Rejected\<close> when it returned \<open>null\<close> and
  \<open>Threw msg\<close> when it threw an error with that \<open>message\<close> (the two ways versions of the
  library refuse a move), the object unchanged.\<close>

datatype 'p move_result = Moved 'p chess_move | Rejected | Threw "jstr option"

record 'p rules =
  new_chess :: 'p
  load :: "jstr \<Rightarrow> 'p"
  fen :: "'p \<Rightarrow> jstr"
  turn :: "'p \<Rightarrow> color"
  isGameOver :: "'p \<Rightarrow> bool"
  get :: "'p \<Rightarrow> jstr \<Rightarrow> piece option"
  moves :: "'p \<Rightarrow> jstr \<Rightarrow> chess_move list"
  move :: "'p \<Rightarrow> jstr \<Rightarrow> jstr \<Rightarrow> jstr option \<Rightarrow> 'p move_result"

section \<open>The oracle\<close>

text \<open>
  What \<open>fetch\<close> and \<open>res.json()\<close> give \<open>fetchBestMove\<close>: either an exception (the fetch
  or the JSON parse is rejected, or the body is \<open>null\<close>) with the \<open>message\<close> of the thrown
  value if it has one, or a response with its status and the three fields read from it.
  \<open>res.ok\<close> is true for the statuses 200 to 299.
\<close>

record json_body =
  evaluation :: jval
  mate :: jval
  bestmove :: jval

datatype fetch_outcome = FetchThrew "jstr option" | Http nat json_body

record best =
  eval :: "real option"
  best_mate :: jval
  bestUci :: "jstr option"

function decimal :: "nat \<Rightarrow> jstr" where
  "decimal n = (if n < 10 then [48 + of_nat n] else decimal (n div 10) @ [48 + of_nat (n mod 10)])"
  by pat_completeness auto
termination
  by (relation "measure id") auto

declare decimal.simps [simp del]

text \<open>The part of \<open>fetchBestMove\<close> after the response: \<open>Inl msg\<close> is an exception.\<close>

definition fetchBestMove :: "fetch_outcome \<Rightarrow> jstr option + best" where
  "fetchBestMove outcome =
     (case outcome of
        FetchThrew msg \<Rightarrow> Inl msg
      | Http status json \<Rightarrow>
          if \<not> (200 \<le> status \<and> status \<le> 299) then Inl (Some (js ''Engine HTTP '' @ decimal status))
          else Inr \<lparr> eval = (case evaluation json of JNumber x \<Rightarrow> Some x | _ \<Rightarrow> None),
                     best_mate = mate json,
                     bestUci = parseBestMove (case bestmove json of JString b \<Rightarrow> Some b | _ \<Rightarrow> None) \<rparr>)"

section \<open>The session state\<close>

text \<open>
  \<open>Chess\<close> objects are mutable and shared between the component state and the closures of
  pending requests, so they live in a store: \<open>heap\<close> holds what each object holds, an object
  is its index, and \<open>new Chess(...)\<close> appends. The fields \<open>game\<close> to \<open>engineEnabled\<close> are the
  \<open>useState\<close> cells, \<open>lastMoveRef\<close> the \<open>useRef\<close> cell.

  An \<open>engineMove\<close> closure reads the \<open>game\<close>, \<open>engineDepth\<close> and \<open>engineEnabled\<close> of the render
  that created it. \<open>inflight\<close> holds the requests awaiting their response and \<open>timers\<close> the
  \<open>setTimeout\<close> callbacks of \<open>newGame\<close> that have not run. \<open>onSquareClick\<close> and
  \<open>handlePromotion\<close> do not list \<open>engineMove\<close> or \<open>engineDepth\<close> among their dependencies, so
  the depth their \<open>engineMove\<close> sends can be older than \<open>engineDepth\<close>: \<open>clickDepth\<close> and
  \<open>promoDepth\<close> hold it.
\<close>

record evalinfo =
  cp :: "real option"
  mate_in :: jval

record request =
  req_game :: nat
  req_fen :: jstr
  req_depth :: int

record closure =
  clo_game :: nat
  clo_depth :: int
  clo_enabled :: bool

record 'p session =
  heap :: "'p list"
  game :: nat
  selected :: "jstr option"
  legalTargets :: "jstr list"
  history :: "chess_move list"
  engineDepth :: int
  evalInfo :: evalinfo
  busy :: bool
  flip :: bool
  error :: "jstr option"
  promotionSquare :: "jstr option"
  engineEnabled :: bool
  lastMoveRef :: "chess_move option"
  inflight :: "request list"
  timers :: "(closure \<times> jstr) list"
  clickDepth :: int
  promoDepth :: int

definition init :: "'p rules \<Rightarrow> 'p session" where
  "init R =
     \<lparr> heap = [new_chess R], game = 0, selected = None, legalTargets = [], history = [],
       engineDepth = 12, evalInfo = \<lparr> cp = None, mate_in = JNull \<rparr>, busy = False, flip = False,
       error = None, promotionSquare = None, engineEnabled = True, lastMoveRef = None,
       inflight = [], timers = [], clickDepth = 12, promoDepth = 12 \<rparr>"

text \<open>What the object in \<open>game\<close> holds: the Position the component renders.\<close>

definition position :: "'p session \<Rightarrow> 'p" where
  "position s = heap s ! game s"

section \<open>The handlers\<close>

text \<open>\<open>engineMove\<close> up to its \<open>await\<close>: the request is issued.\<close>

definition engineMove :: "'p rules \<Rightarrow> closure \<Rightarrow> jstr option \<Rightarrow> 'p session \<Rightarrow> 'p session" where
  "engineMove R c fenNow s =
     (if \<not> clo_enabled c then s
      else
        let curFen = (case fenNow of Some f \<Rightarrow> f | None \<Rightarrow> fen R (heap s ! clo_game c))
        in if isGameOver R (heap s ! clo_game c) then s
           else s\<lparr> busy := True, error := None,
                   inflight := inflight s @
                     [\<lparr> req_game = clo_game c, req_fen = curFen, req_depth = min (clo_depth c) 15 \<rparr>] \<rparr>)"

text \<open>The lines every successful \<open>game.move\<close> is followed by: the object \<open>a\<close> the move was
  made on now holds \<open>p'\<close>, \<open>lastMoveRef.current = move\<close>,
  \<open>setGame(new Chess(game.fen()))\<close> and \<open>setHistory(prev => [...prev, move])\<close>.\<close>

definition applied :: "'p rules \<Rightarrow> nat \<Rightarrow> 'p \<Rightarrow> chess_move \<Rightarrow> 'p session \<Rightarrow> 'p session" where
  "applied R a p' m s =
     s\<lparr> heap := (heap s)[a := p'] @ [load R (fen R p')], game := length (heap s),
        history := history s @ [m], lastMoveRef := Some m \<rparr>"

text \<open>The two messages of \<open>engineMove\<close>, Korean text, by their UTF-16 code units: the one
  set when the response has no valid move, and the default of the \<open>catch\<close> block.\<close>

definition noMoveMessage :: jstr where
  "noMoveMessage = [50644, 51652, 51060, 32, 50976, 54952, 54620, 32, 49688, 47484, 32,
     51452, 51648, 32, 50506, 50520, 51020]"

definition callErrorMessage :: jstr where
  "callErrorMessage = [50644, 51652, 32, 54840, 52636, 32, 50724, 47448]"

text \<open>\<open>e?.message ?? "..."\<close> of the \<open>catch\<close> block.\<close>

definition caught :: "jstr option \<Rightarrow> jstr" where
  "caught msg = (case msg of Some m \<Rightarrow> m | None \<Rightarrow> callErrorMessage)"

text \<open>\<open>engineMove\<close> from its \<open>await\<close> on, for the request \<open>r\<close> and what the fetch gave.\<close>

definition engineMove_resume :: "'p rules \<Rightarrow> request \<Rightarrow> fetch_outcome \<Rightarrow> 'p session \<Rightarrow> 'p session" where
  "engineMove_resume R r outcome s =
     (case fetchBestMove outcome of
        Inl msg \<Rightarrow> s\<lparr> error := Some (caught msg), busy := False \<rparr>
      | Inr b \<Rightarrow>
          let s1 = s\<lparr> evalInfo := \<lparr> cp = eval b, mate_in = best_mate b \<rparr> \<rparr>
          in if truthy (bestUci b) then
               let u = the (bestUci b);
                   from = take 2 u;
                   to = take 2 (drop 2 u);
                   promo = (if length u = 5 then Some [u ! 4] else None)
               in (case move R (heap s ! req_game r) from to promo of
                     Moved p' m \<Rightarrow> (applied R (req_game r) p' m s1)\<lparr> busy := False \<rparr>
                   | Rejected \<Rightarrow> s1\<lparr> busy := False \<rparr>
                   | Threw msg \<Rightarrow> s1\<lparr> error := Some (caught msg), busy := False \<rparr>)
             else s1\<lparr> error := Some noMoveMessage, busy := False \<rparr>)"

text \<open>An exception of \<open>game.move\<close> in \<open>handlePromotion\<close> and \<open>onSquareClick\<close> leaves the
  handler before any state is set.\<close>

definition handlePromotion :: "'p rules \<Rightarrow> jstr \<Rightarrow> 'p session \<Rightarrow> 'p session" where
  "handlePromotion R pc s =
     (if \<not> truthy (promotionSquare s) \<or> \<not> truthy (selected s) then s
      else
        (case move R (position s) (the (selected s)) (the (promotionSquare s)) (Some pc) of
           Moved p' m \<Rightarrow>
             let s1 = (applied R (game s) p' m s)\<lparr> promotionSquare := None, selected := None,
                        legalTargets := [] \<rparr>
             in if engineEnabled s
                then engineMove R \<lparr> clo_game = game s, clo_depth = promoDepth s,
                                    clo_enabled = engineEnabled s \<rparr> (Some (fen R p')) s1
                else s1
         | _ \<Rightarrow> s))"

definition ownPiece :: "'p rules \<Rightarrow> 'p \<Rightarrow> jstr \<Rightarrow> bool" where
  "ownPiece R p sq =
     (case get R p sq of
        None \<Rightarrow> False
      | Some pc \<Rightarrow> (turn R p = White \<and> piece_color pc = White) \<or>
                   (turn R p = Black \<and> piece_color pc = Black))"

definition onSquareClick :: "'p rules \<Rightarrow> jstr \<Rightarrow> 'p session \<Rightarrow> 'p session" where
  "onSquareClick R sq s =
     (if busy s \<or> isGameOver R (position s) then s
      else if truthy (promotionSquare s) then s
      else if ownPiece R (position s) sq
      then s\<lparr> selected := Some sq, legalTargets := map to_sq (moves R (position s) sq) \<rparr>
      else if \<not> truthy (selected s) then s
      else
        let possible = moves R (position s) (the (selected s));
            targetMove = find (\<lambda>m. to_sq m = sq) possible
        in if (case targetMove of Some m \<Rightarrow> truthy (promotion m) | None \<Rightarrow> False)
           then s\<lparr> promotionSquare := Some sq \<rparr>
           else
             (case move R (position s) (the (selected s)) sq (Some (js ''q'')) of
                Moved p' m \<Rightarrow>
                  let s1 = (applied R (game s) p' m s)\<lparr> selected := None, legalTargets := [] \<rparr>
                  in if engineEnabled s
                     then engineMove R \<lparr> clo_game = game s, clo_depth = clickDepth s,
                                         clo_enabled = engineEnabled s \<rparr> (Some (fen R p')) s1
                     else s1
              | _ \<Rightarrow> s))"

text \<open>\<open>newGame\<close>. Its timer callback calls the \<open>engineMove\<close> of the render \<open>newGame\<close> was
  created in, whose \<open>game\<close> is the object of the game being left.\<close>

definition newGame :: "'p rules \<Rightarrow> color \<Rightarrow> 'p session \<Rightarrow> 'p session" where
  "newGame R playAs s =
     (let s1 = s\<lparr> heap := heap s @ [new_chess R], game := length (heap s), history := [],
                  selected := None, legalTargets := [],
                  evalInfo := \<lparr> cp = None, mate_in = JNull \<rparr>, error := None,
                  flip := (playAs = Black) \<rparr>
      in if playAs = Black \<and> engineEnabled s
         then s1\<lparr> timers := timers s @
                [(\<lparr> clo_game = game s, clo_depth = engineDepth s, clo_enabled = engineEnabled s \<rparr>,
                  fen R (new_chess R))] \<rparr>
         else s1)"

text \<open>The Engine Move button: \<open>disabled={!engineEnabled || busy || isGameOver}\<close>, and a
  disabled button delivers no click.\<close>

definition engineButton :: "'p rules \<Rightarrow> 'p session \<Rightarrow> 'p session" where
  "engineButton R s =
     (if \<not> engineEnabled s \<or> busy s \<or> isGameOver R (position s) then s
      else engineMove R \<lparr> clo_game = game s, clo_depth = engineDepth s,
                          clo_enabled = engineEnabled s \<rparr> None s)"

text \<open>\<open>lastFromTo\<close>, recomputed from \<open>lastMoveRef\<close> whenever \<open>history\<close> is set.\<close>

definition lastFromTo :: "'p session \<Rightarrow> (jstr \<times> jstr) option" where
  "lastFromTo s = map_option (\<lambda>m. (from_sq m, to_sq m)) (lastMoveRef s)"

section \<open>Events\<close>

text \<open>
  The component handles one event at a time: a click on a square, a choice in the
  promotion dialog, the buttons, the depth slider, a timer of \<open>newGame\<close> running, and the
  response to a pending request arriving. After each event the component renders again;
  \<open>useCallback\<close> then keeps \<open>onSquareClick\<close> and \<open>handlePromotion\<close> unless one of their
  dependencies changed (\<open>[game, selected, busy, isGameOver, promotionSquare, engineEnabled]\<close>
  and \<open>[game, selected, promotionSquare, engineEnabled]\<close>; \<open>rerender\<close> tests them one by
  one).
\<close>

datatype event =
    Click jstr
  | Promote jstr
  | EngineButton
  | NewGame color
  | ToggleEngine
  | Flip
  | SetDepth int
  | TimerFires
  | Settle nat fetch_outcome

definition rerender :: "'p rules \<Rightarrow> 'p session \<Rightarrow> 'p session \<Rightarrow> 'p session" where
  "rerender R s0 s =
     s\<lparr> clickDepth :=
          (if game s \<noteq> game s0 then engineDepth s
           else if selected s \<noteq> selected s0 then engineDepth s
           else if busy s \<noteq> busy s0 then engineDepth s
           else if promotionSquare s \<noteq> promotionSquare s0 then engineDepth s
           else if engineEnabled s \<noteq> engineEnabled s0 then engineDepth s
           else if isGameOver R (position s) \<noteq> isGameOver R (position s0) then engineDepth s
           else clickDepth s),
        promoDepth :=
          (if game s \<noteq> game s0 then engineDepth s
           else if selected s \<noteq> selected s0 then engineDepth s
           else if promotionSquare s \<noteq> promotionSquare s0 then engineDepth s
           else if engineEnabled s \<noteq> engineEnabled s0 then engineDepth s
           else promoDepth s) \<rparr>"

text \<open>The handler of an event; \<open>None\<close> when the event cannot happen (no timer is waiting,
  no such request is pending).\<close>

definition handle :: "'p rules \<Rightarrow> event \<Rightarrow> 'p session \<Rightarrow> 'p session option" where
  "handle R ev s =
     (case ev of
        Click sq \<Rightarrow> Some (onSquareClick R sq s)
      | Promote pc \<Rightarrow> Some (handlePromotion R pc s)
      | EngineButton \<Rightarrow> Some (engineButton R s)
      | NewGame playAs \<Rightarrow> Some (newGame R playAs s)
      | ToggleEngine \<Rightarrow> Some (s\<lparr> engineEnabled := \<not> engineEnabled s \<rparr>)
      | Flip \<Rightarrow> Some (s\<lparr> flip := \<not> flip s \<rparr>)
      | SetDepth d \<Rightarrow> Some (s\<lparr> engineDepth := d \<rparr>)
      | TimerFires \<Rightarrow>
          (case timers s of
             [] \<Rightarrow> None
           | (c, f) # ts \<Rightarrow> Some (engineMove R c (Some f) (s\<lparr> timers := ts \<rparr>)))
      | Settle i outcome \<Rightarrow>
          if i < length (inflight s)
          then Some (engineMove_resume R (inflight s ! i) outcome
                 (s\<lparr> inflight := take i (inflight s) @ drop (Suc i) (inflight s) \<rparr>))
          else None)"

definition step :: "'p rules \<Rightarrow> event \<Rightarrow> 'p session \<Rightarrow> 'p session option" where
  "step R ev s = map_option (rerender R s) (handle R ev s)"

fun run :: "'p rules \<Rightarrow> event list \<Rightarrow> 'p session \<Rightarrow> 'p session option" where
  "run R [] s = Some s"
| "run R (ev # evs) s = (case step R ev s of None \<Rightarrow> None | Some s' \<Rightarrow> run R evs s')"

text \<open>Reading an object is reading \<open>heap\<close> at its index. In the states the handlers
  build from the initial one, the index in \<open>game\<close> and the indices held by requests and
  timers are indices of \<open>heap\<close> (\<open>reachable_objects_exist\<close> below).\<close>

definition objects_exist :: "'p session \<Rightarrow> bool" where
  "objects_exist s \<longleftrightarrow>
     game s < length (heap s) \<and>
     (\<forall>r \<in> set (inflight s). req_game r < length (heap s)) \<and>
     (\<forall>c \<in> set (timers s). clo_game (fst c) < length (heap s))"

section \<open>Replaying the move history\<close>

text \<open>Each move of the ledger is made through the rules engine, from the starting
  position; after each move the position is reloaded from its FEN, as the handlers do.\<close>

fun replay_from :: "'p rules \<Rightarrow> 'p \<Rightarrow> chess_move list \<Rightarrow> 'p option" where
  "replay_from R p [] = Some p"
| "replay_from R p (m # ms) =
     (case move R p (from_sq m) (to_sq m) (promotion m) of
        Moved p' m' \<Rightarrow> replay_from R (load R (fen R p')) ms
      | _ \<Rightarrow> None)"

definition replay :: "'p rules \<Rightarrow> chess_move list \<Rightarrow> 'p option" where
  "replay R ms = replay_from R (new_chess R) ms"

text \<open>The rules engine accepts the move of a response on the object \<open>p\<close> when the fetch
  returns, there is a token, and \<open>move\<close> on \<open>p\<close> returns a move.\<close>

definition accepts :: "'p rules \<Rightarrow> 'p \<Rightarrow> fetch_outcome \<Rightarrow> bool" where
  "accepts R p outcome =
     (case fetchBestMove outcome of
        Inl msg \<Rightarrow> False
      | Inr b \<Rightarrow>
          if truthy (bestUci b)
          then (case move R p (take 2 (the (bestUci b))) (take 2 (drop 2 (the (bestUci b))))
                       (if length (the (bestUci b)) = 5 then Some [the (bestUci b) ! 4] else None) of
                  Moved p' m \<Rightarrow> True
                | _ \<Rightarrow> False)
          else False)"

text \<open>A response settles on the current position when the object its request closed
  over has the FEN of the position in \<open>game\<close>, or when its move is not made: the fetch
  fails, there is no token, or the rules engine refuses the move on that object.\<close>

fun settles_current :: "'p rules \<Rightarrow> 'p session \<Rightarrow> event \<Rightarrow> bool" where
  "settles_current R s (Settle i outcome) =
     (if i < length (inflight s) \<and> accepts R (heap s ! req_game (inflight s ! i)) outcome
      then fen R (heap s ! req_game (inflight s ! i)) = fen R (position s)
      else True)"
| "settles_current R s _ = True"

fun run_current :: "'p rules \<Rightarrow> event list \<Rightarrow> 'p session \<Rightarrow> 'p session option" where
  "run_current R [] s = Some s"
| "run_current R (ev # evs) s =
     (if settles_current R s ev
      then (case step R ev s of None \<Rightarrow> None | Some s' \<Rightarrow> run_current R evs s')
      else None)"

text \<open>Two properties of a rules engine. The moves it accepts depend on the position's
  FEN only, and the \<open>from\<close>, \<open>to\<close> and \<open>promotion\<close> of a move it returned make that move
  again; and it accepts no move to a square that \<open>moves\<close> does not list.\<close>

definition fen_determines_moves :: "'p rules \<Rightarrow> bool" where
  "fen_determines_moves R \<longleftrightarrow>
     (\<forall>p q f t pr p' m. fen R p = fen R q \<and> move R p f t pr = Moved p' m \<longrightarrow>
        (\<exists>q' m'. move R q (from_sq m) (to_sq m) (promotion m) = Moved q' m' \<and> fen R q' = fen R p'))"

definition moves_cover_move :: "'p rules \<Rightarrow> bool" where
  "moves_cover_move R \<longleftrightarrow>
     (\<forall>p f t pr p' m. move R p f t pr = Moved p' m \<longrightarrow> t \<in> to_sq ` set (moves R p f))"

text \<open>The ledger replays to the position in \<open>game\<close>.\<close>

definition ledger_ok :: "'p rules \<Rightarrow> 'p session \<Rightarrow> bool" where
  "ledger_ok R s \<longleftrightarrow> replay R (history s) = Some (position s)"

section \<open>A small rules engine\<close>

text \<open>
  An instance of the rules-engine interface on which the controller can be run: the pawn
  moves of chess (one square forward, two from the starting rank, a diagonal capture,
  promotion on the last rank) on the usual board, the other pieces standing still, and
  the game over when the side to move has no move. What an object holds is the FEN of
  its position, whose castling, en-passant and clock fields are carried along unchanged.
  As \<open>chess.js\<close> does, \<open>move\<close> takes the first listed move that has the given squares and,
  if it is a promotion, the given promotion piece. In the examples below the moves the
  engine lists and accepts, and the boards they lead to, are those of chess.
\<close>

definition files :: "16 word list" where
  "files = [97, 98, 99, 100, 101, 102, 103, 104]"

definition ranks :: "16 word list" where
  "ranks = [56, 55, 54, 53, 52, 51, 50, 49]"

text \<open>The board of a FEN: its eight rows from rank 8 down, a row being eight code
  units, the letter of a piece or 0 for an empty square.\<close>

fun rowsOf :: "jstr \<Rightarrow> 16 word list list" where
  "rowsOf [] = [[]]"
| "rowsOf (c # cs) =
     (if 56 < c then (case rowsOf cs of r # rs \<Rightarrow> (c # r) # rs | [] \<Rightarrow> [[c]])
      else if c = 47 then [] # rowsOf cs
      else if c = 32 then [[]]
      else (case rowsOf cs of
              r # rs \<Rightarrow> (replicate (unat (c - 48)) 0 @ r) # rs
            | [] \<Rightarrow> [replicate (unat (c - 48)) 0]))"

fun lookup :: "16 word list \<Rightarrow> 'a list \<Rightarrow> 16 word \<Rightarrow> 'a option" where
  "lookup (k # ks) (x # xs) key = (if key = k then Some x else lookup ks xs key)"
| "lookup _ _ _ = None"

fun change :: "16 word list \<Rightarrow> 'a list \<Rightarrow> 16 word \<Rightarrow> ('a \<Rightarrow> 'a) \<Rightarrow> 'a list" where
  "change (k # ks) (x # xs) key f = (if key = k then f x # xs else x # change ks xs key f)"
| "change _ xs _ _ = xs"

definition pieceAt :: "16 word list list \<Rightarrow> jstr \<Rightarrow> 16 word" where
  "pieceAt b sq =
     (case sq of
        [f, r] \<Rightarrow>
          (case lookup ranks b r of
             None \<Rightarrow> 0
           | Some row \<Rightarrow> (case lookup files row f of None \<Rightarrow> 0 | Some c \<Rightarrow> c))
      | _ \<Rightarrow> 0)"

definition setPiece :: "16 word list list \<Rightarrow> jstr \<Rightarrow> 16 word \<Rightarrow> 16 word list list" where
  "setPiece b sq c =
     (case sq of
        [f, r] \<Rightarrow> change ranks b r (\<lambda>row. change files row f (\<lambda>_. c))
      | _ \<Rightarrow> b)"

definition sideToMove :: "jstr \<Rightarrow> color" where
  "sideToMove p =
     (case dropWhile (\<lambda>c. c \<noteq> 32) p of
        _ # c # _ \<Rightarrow> if c = 98 then Black else White
      | _ \<Rightarrow> White)"

definition pawn_get :: "jstr \<Rightarrow> jstr \<Rightarrow> piece option" where
  "pawn_get p sq =
     (let c = pieceAt (rowsOf p) sq
      in if c = 0 then None
         else Some \<lparr> piece_type = toLowerCase [c],
                     piece_color = (if c \<le> 90 then White else Black) \<rparr>)"

definition pawn_targets :: "16 word list list \<Rightarrow> color \<Rightarrow> jstr \<Rightarrow> jstr list" where
  "pawn_targets b col sq =
     (case sq of
        [f, r] \<Rightarrow>
          let r1 = (if col = White then r + 1 else r - 1);
              r2 = (if col = White then r + 2 else r - 2);
              start = (if col = White then 50 else 55);
              enemy = (\<lambda>c. c \<noteq> 0 \<and> (if col = White then 97 \<le> c else c \<le> 90))
          in (if isRank r1 \<and> pieceAt b [f, r1] = 0 then [[f, r1]] else [])
           @ (if r = start \<and> pieceAt b [f, r1] = 0 \<and> pieceAt b [f, r2] = 0 then [[f, r2]] else [])
           @ (if enemy (pieceAt b [f - 1, r1]) then [[f - 1, r1]] else [])
           @ (if enemy (pieceAt b [f + 1, r1]) then [[f + 1, r1]] else [])
      | _ \<Rightarrow> [])"

definition board_moves :: "16 word list list \<Rightarrow> color \<Rightarrow> jstr \<Rightarrow> chess_move list" where
  "board_moves b col sq =
     (if pieceAt b sq = (if col = White then 80 else 112)
      then concat (map (\<lambda>t.
             let base = (if hd t \<noteq> hd sq then [hd sq, 120] else []) @ t
             in if t ! 1 = (if col = White then 56 else 49)
                then map (\<lambda>pr. \<lparr> from_sq = sq, to_sq = t, promotion = Some [pr],
                                   san = base @ [61, pr - 32] \<rparr>) [113, 114, 98, 110]
                else [\<lparr> from_sq = sq, to_sq = t, promotion = None, san = base \<rparr>])
             (pawn_targets b col sq))
      else [])"

definition pawn_moves :: "jstr \<Rightarrow> jstr \<Rightarrow> chess_move list" where
  "pawn_moves p sq = board_moves (rowsOf p) (sideToMove p) sq"

fun packRow :: "16 word list \<Rightarrow> nat \<Rightarrow> jstr" where
  "packRow [] n = (if n = 0 then [] else [48 + of_nat n])"
| "packRow (c # cs) n =
     (if c = 0 then packRow cs (Suc n)
      else (if n = 0 then [] else [48 + of_nat n]) @ c # packRow cs 0)"

fun packBoard :: "16 word list list \<Rightarrow> jstr" where
  "packBoard [] = []"
| "packBoard [r] = packRow r 0"
| "packBoard (r # rs) = packRow r 0 @ 47 # packBoard rs"

definition pawn_make :: "jstr \<Rightarrow> chess_move \<Rightarrow> jstr" where
  "pawn_make p m =
     (let b = rowsOf p; col = sideToMove p;
          c = (case promotion m of
                 Some [pr] \<Rightarrow> if col = White then pr - 32 else pr
               | _ \<Rightarrow> pieceAt b (from_sq m))
      in packBoard (setPiece (setPiece b (from_sq m) 0) (to_sq m) c)
           @ [32, if col = White then 98 else 119]
           @ drop 2 (dropWhile (\<lambda>c. c \<noteq> 32) p))"

definition pawn_move :: "jstr \<Rightarrow> jstr \<Rightarrow> jstr \<Rightarrow> jstr option \<Rightarrow> jstr move_result" where
  "pawn_move p f t pr =
     (case find (\<lambda>m. from_sq m = f \<and> to_sq m = t \<and> (promotion m = None \<or> promotion m = pr))
             (pawn_moves p f) of
        None \<Rightarrow> Rejected
      | Some m \<Rightarrow> Moved (pawn_make p m) m)"

definition pawn_isGameOver :: "jstr \<Rightarrow> bool" where
  "pawn_isGameOver p =
     (let b = rowsOf p; col = sideToMove p; own = (if col = White then 80 else 112);
          cells = concat (map (\<lambda>(r, row). map (\<lambda>(f, c). ([f, r], c)) (zip files row)) (zip ranks b))
      in \<not> list_ex (\<lambda>(sq, c). c = own \<and> pawn_targets b col sq \<noteq> [])
             (if col = White then rev cells else cells))"

definition pawn_rules :: "jstr rules" where
  "pawn_rules =
     \<lparr> new_chess = js ''rnbqkbnr/pppppppp/8/8/8/8/PPPPPPPP/RNBQKBNR w KQkq - 0 1'',
       load = (\<lambda>f. f), fen = (\<lambda>p. p), turn = sideToMove, isGameOver = pawn_isGameOver,
       get = pawn_get, moves = pawn_moves, move = pawn_move \<rparr>"

section \<open>Example sessions\<close>

text \<open>Sessions of the controller on the small rules engine, used to run the theorems
  below on concrete inputs. \<open>reply b\<close> is a successful response of the oracle whose
  \<open>bestmove\<close> field is \<open>b\<close>.\<close>

definition reply :: "string \<Rightarrow> fetch_outcome" where
  "reply b = Http 200 \<lparr> evaluation = JNumber 0, mate = JNull, bestmove = JString (js b) \<rparr>"

definition pawn_push :: "string \<Rightarrow> string \<Rightarrow> chess_move" where
  "pawn_push f t = \<lparr> from_sq = js f, to_sq = js t, promotion = None, san = js t \<rparr>"

definition pawn_takes :: "string \<Rightarrow> string \<Rightarrow> chess_move" where
  "pawn_takes f t = \<lparr> from_sq = js f, to_sq = js t, promotion = None,
                       san = js (hd f # CHR ''x'' # t) \<rparr>"

text \<open>After the clicks e2, e4 from the initial session: the pawn has moved and the
  request for the reply is pending.\<close>

definition fen_e4 :: jstr where
  "fen_e4 = js ''rnbqkbnr/pppppppp/8/8/4P3/8/PPPP1PPP/RNBQKBNR b KQkq - 0 1''"

definition after_e4 :: "jstr session" where
  "after_e4 =
     \<lparr> heap = [fen_e4, fen_e4], game = 1, selected = None, legalTargets = [],
       history = [pawn_push ''e2'' ''e4''], engineDepth = 12,
       evalInfo = \<lparr> cp = None, mate_in = JNull \<rparr>, busy = True, flip = False,
       error = None, promotionSquare = None, engineEnabled = True,
       lastMoveRef = Some (pawn_push ''e2'' ''e4''),
       inflight = [\<lparr> req_game = 0, req_fen = fen_e4, req_depth = 12 \<rparr>], timers = [],
       clickDepth = 12, promoDepth = 12 \<rparr>"

definition fen_e4_e5 :: jstr where
  "fen_e4_e5 = js ''rnbqkbnr/pppp1ppp/8/4p3/4P3/8/PPPP1PPP/RNBQKBNR w KQkq - 0 1''"

text \<open>After the click e2 from the initial session.\<close>

definition e2_selected :: "jstr session" where
  "e2_selected = (init pawn_rules)\<lparr> selected := Some (js ''e2''),
                                     legalTargets := [js ''e3'', js ''e4''] \<rparr>"

text \<open>A finished game: Black, to move, is stalemated.\<close>

definition stalemate :: "jstr session" where
  "stalemate =
     (init pawn_rules)\<lparr> heap := [js ''7k/5Q2/6K1/8/8/8/8/8 b - - 0 1''],
                         engineEnabled := False \<rparr>"

text \<open>1. a4 b5 2. axb5 a6 3. bxa6 h6 4. a7 h5, Black's moves being the oracle's replies,
  and then the clicks a7, b8: the capture on b8 promotes, so the promotion dialog opens.\<close>

definition promotion_line :: "event list" where
  "promotion_line =
     [Click (js ''a2''), Click (js ''a4''), Settle 0 (reply ''bestmove b7b5''),
      Click (js ''a4''), Click (js ''b5''), Settle 0 (reply ''bestmove a7a6''),
      Click (js ''b5''), Click (js ''a6''), Settle 0 (reply ''bestmove h7h6''),
      Click (js ''a6''), Click (js ''a7''), Settle 0 (reply ''bestmove h6h5''),
      Click (js ''a7''), Click (js ''b8'')]"

definition pending :: "jstr session" where
  "pending =
     \<lparr> heap =
         [js ''rnbqkbnr/p1pppppp/8/1p6/P7/8/1PPPPPPP/RNBQKBNR w KQkq - 0 1'',
          js ''rnbqkbnr/pppppppp/8/8/P7/8/1PPPPPPP/RNBQKBNR b KQkq - 0 1'',
          js ''rnbqkbnr/2pppppp/p7/1P6/8/8/1PPPPPPP/RNBQKBNR w KQkq - 0 1'',
          js ''rnbqkbnr/p1pppppp/8/1P6/8/8/1PPPPPPP/RNBQKBNR b KQkq - 0 1'',
          js ''rnbqkbnr/2ppppp1/P6p/8/8/8/1PPPPPPP/RNBQKBNR w KQkq - 0 1'',
          js ''rnbqkbnr/2pppppp/P7/8/8/8/1PPPPPPP/RNBQKBNR b KQkq - 0 1'',
          js ''rnbqkbnr/P1ppppp1/8/7p/8/8/1PPPPPPP/RNBQKBNR w KQkq - 0 1'',
          js ''rnbqkbnr/P1ppppp1/7p/8/8/8/1PPPPPPP/RNBQKBNR b KQkq - 0 1'',
          js ''rnbqkbnr/P1ppppp1/8/7p/8/8/1PPPPPPP/RNBQKBNR w KQkq - 0 1''],
       game = 8, selected = Some (js ''a7''),
       legalTargets = [js ''b8'', js ''b8'', js ''b8'', js ''b8''],
       history =
         [pawn_push ''a2'' ''a4'', pawn_push ''b7'' ''b5'', pawn_takes ''a4'' ''b5'',
          pawn_push ''a7'' ''a6'', pawn_takes ''b5'' ''a6'', pawn_push ''h7'' ''h6'',
          pawn_push ''a6'' ''a7'', pawn_push ''h6'' ''h5''],
       engineDepth = 12, evalInfo = \<lparr> cp = Some 0, mate_in = JNull \<rparr>, busy = False,
       flip = False, error = None, promotionSquare = Some (js ''b8''), engineEnabled = True,
       lastMoveRef = Some (pawn_push ''h6'' ''h5''), inflight = [], timers = [],
       clickDepth = 12, promoDepth = 12 \<rparr>"

text \<open>With the dialog open, the Engine Move button is pressed and the oracle's h2-h3 is
  played for White: it is Black's turn, and the pending capture a7xb8 is no longer legal.\<close>

definition fen_h3 :: jstr where
  "fen_h3 = js ''rnbqkbnr/P1ppppp1/8/7p/8/7P/1PPPPPP1/RNBQKBNR b KQkq - 0 1''"

definition rejecting :: "jstr session" where
  "rejecting =
     pending\<lparr> heap := (heap pending)[8 := fen_h3] @ [fen_h3], game := 9,
               history := history pending @ [pawn_push ''h2'' ''h3''],
               lastMoveRef := Some (pawn_push ''h2'' ''h3'') \<rparr>"

section \<open>Settling a request\<close>

lemma resume_threw:
  "fetchBestMove outcome = Inl msg \<Longrightarrow>
   engineMove_resume R r outcome s = s\<lparr> error := Some (caught msg), busy := False \<rparr>"
  by (simp add: engineMove_resume_def)

lemma resume_no_token:
  "fetchBestMove outcome = Inr b \<Longrightarrow> \<not> truthy (bestUci b) \<Longrightarrow>
   engineMove_resume R r outcome s =
     s\<lparr> evalInfo := \<lparr> cp = eval b, mate_in = best_mate b \<rparr>, error := Some noMoveMessage,
        busy := False \<rparr>"
  by (simp add: engineMove_resume_def Let_def)

lemma resume_token:
  "fetchBestMove outcome = Inr b \<Longrightarrow> truthy (bestUci b) \<Longrightarrow>
   engineMove_resume R r outcome s =
     (case move R (heap s ! req_game r) (take 2 (the (bestUci b)))
             (take 2 (drop 2 (the (bestUci b))))
             (if length (the (bestUci b)) = 5 then Some [the (bestUci b) ! 4] else None) of
        Moved p' m \<Rightarrow>
          (applied R (req_game r) p' m (s\<lparr> evalInfo := \<lparr> cp = eval b, mate_in = best_mate b \<rparr> \<rparr>))
            \<lparr> busy := False \<rparr>
      | Rejected \<Rightarrow> s\<lparr> evalInfo := \<lparr> cp = eval b, mate_in = best_mate b \<rparr>, busy := False \<rparr>
      | Threw msg \<Rightarrow> s\<lparr> evalInfo := \<lparr> cp = eval b, mate_in = best_mate b \<rparr>,
                        error := Some (caught msg), busy := False \<rparr>)"
  by (simp add: engineMove_resume_def Let_def split: move_result.splits)

lemma position_applied: "position (applied R a p' m s) = load R (fen R p')"
  by (simp add: applied_def position_def nth_append)

lemma history_applied: "history (applied R a p' m s) = history s @ [m]"
  by (simp add: applied_def)

lemma position_busy: "position (s\<lparr> busy := b \<rparr>) = position s"
  by (simp add: position_def)

lemma handle_Settle:
  "i < length (inflight s) \<Longrightarrow>
   handle R (Settle i outcome) s =
     Some (engineMove_resume R (inflight s ! i) outcome
            (s\<lparr> inflight := take i (inflight s) @ drop (Suc i) (inflight s) \<rparr>))"
  by (simp add: handle_def)

section \<open>parseBestMove and its specification\<close>

lemma uci_pattern_spec: "uci_pattern u = spec_pattern u"
  by (cases u rule: uci_pattern.cases) (auto simp: spec_pattern_def)

lemma findIndex_Some:
  "findIndex P xs = Some i \<Longrightarrow> i < length xs \<and> dropWhile (\<lambda>x. \<not> P x) xs = drop i xs"
proof (induction xs arbitrary: i)
  case Nil
  then show ?case by simp
next
  case (Cons x xs)
  then show ?case by (cases "P x") auto
qed

lemma findIndex_None:
  "findIndex P xs = None \<Longrightarrow> dropWhile (\<lambda>x. \<not> P x) xs = []"
  by (induction xs) (auto split: if_splits)

lemma spec_words_blank: "dropWhile isWhiteSpace s = [] \<Longrightarrow> spec_words s = []"
  by (subst spec_words.simps) (simp add: Let_def)

lemma spec_words_step:
  "dropWhile isWhiteSpace s \<noteq> [] \<Longrightarrow>
   spec_words s = takeWhile (\<lambda>c. \<not> isWhiteSpace c) (dropWhile isWhiteSpace s)
     # spec_words (dropWhile (\<lambda>c. \<not> isWhiteSpace c) (dropWhile isWhiteSpace s))"
  by (subst spec_words.simps) (simp add: Let_def)

lemma hd_not_ws: "dropWhile isWhiteSpace s \<noteq> [] \<Longrightarrow> \<not> isWhiteSpace (hd (dropWhile isWhiteSpace s))"
  using hd_dropWhile[of isWhiteSpace s] by simp

lemma spec_words_nonempty: "w \<in> set (spec_words s) \<Longrightarrow> w \<noteq> []"
proof (induction s rule: spec_words.induct)
  case (1 s)
  let ?t = "dropWhile isWhiteSpace s"
  show ?case
  proof (cases "?t = []")
    case True
    with "1.prems" show ?thesis by (simp only: spec_words_blank) simp
  next
    case False
    have "takeWhile (\<lambda>c. \<not> isWhiteSpace c) ?t \<noteq> []"
      using False hd_not_ws[OF False] by (cases ?t) auto
    moreover have "w \<in> set (spec_words (dropWhile (\<lambda>c. \<not> isWhiteSpace c) ?t)) \<Longrightarrow> w \<noteq> []"
      using "1.IH"[OF refl False] .
    ultimately show ?thesis
      using "1.prems" unfolding spec_words_step[OF False] by auto
  qed
qed

lemma spec_words_all_ws: "\<forall>c \<in> set z. isWhiteSpace c \<Longrightarrow> spec_words z = []"
  by (rule spec_words_blank) simp

lemma spec_words_dropWhile: "spec_words (dropWhile isWhiteSpace s) = spec_words s"
proof (cases "dropWhile isWhiteSpace s = []")
  case True
  then show ?thesis by (simp only: spec_words_blank[OF True]) (simp add: spec_words_blank)
next
  case False
  have dd: "dropWhile isWhiteSpace (dropWhile isWhiteSpace s) = dropWhile isWhiteSpace s"
    using False hd_not_ws[OF False] by (cases "dropWhile isWhiteSpace s") auto
  with False have "dropWhile isWhiteSpace (dropWhile isWhiteSpace s) \<noteq> []" by simp
  from spec_words_step[OF this] spec_words_step[OF False] dd show ?thesis by simp
qed

lemma spec_words_append_ws:
  "\<forall>c \<in> set z. isWhiteSpace c \<Longrightarrow> spec_words (u @ z) = spec_words u"
proof (induction u rule: spec_words.induct)
  case (1 u)
  let ?t = "dropWhile isWhiteSpace u"
  let ?nws = "\<lambda>c. \<not> isWhiteSpace c"
  show ?case
  proof (cases "?t = []")
    case True
    then have "\<forall>c \<in> set (u @ z). isWhiteSpace c" using "1.prems" by auto
    then have "spec_words (u @ z) = []" by (rule spec_words_all_ws)
    moreover have "spec_words u = []" using True by (rule spec_words_blank)
    ultimately show ?thesis by simp
  next
    case False
    then obtain x where x: "x \<in> set u" "\<not> isWhiteSpace x" by auto
    then have dw: "dropWhile isWhiteSpace (u @ z) = ?t @ z" by (simp add: dropWhile_append1)
    have su: "spec_words u = takeWhile ?nws ?t # spec_words (dropWhile ?nws ?t)"
      using False by (rule spec_words_step)
    have hd: "\<not> isWhiteSpace (hd ?t)" using False by (rule hd_not_ws)
    have dd: "dropWhile isWhiteSpace (?t @ z) = ?t @ z" using False hd by (cases ?t) auto
    have ne: "dropWhile isWhiteSpace (?t @ z) \<noteq> []" using dd False by simp
    have stz: "spec_words (?t @ z) = takeWhile ?nws (?t @ z) # spec_words (dropWhile ?nws (?t @ z))"
      using spec_words_step[OF ne] dd by simp
    have "spec_words (u @ z) = spec_words (?t @ z)"
      using dw spec_words_dropWhile[of "u @ z"] by simp
    also have "\<dots> = takeWhile ?nws ?t # spec_words (dropWhile ?nws ?t)"
    proof (cases "\<exists>y \<in> set ?t. isWhiteSpace y")
      case True
      then have a: "takeWhile ?nws (?t @ z) = takeWhile ?nws ?t" 
        and b: "dropWhile ?nws (?t @ z) = dropWhile ?nws ?t @ z"
        by (auto simp: takeWhile_append1 dropWhile_append1)
      from "1.IH"[OF refl False "1.prems"] stz a b show ?thesis by simp
    next
      case F2: False
      then have all: "\<forall>y \<in> set ?t. ?nws y" by auto
      have tz: "takeWhile ?nws z = []" using "1.prems" by (cases z) auto
      have dz: "dropWhile ?nws z = z" using "1.prems" by (cases z) auto
      have a: "takeWhile ?nws (?t @ z) = ?t" using all tz by (simp add: takeWhile_append2)
      have b: "dropWhile ?nws (?t @ z) = z" using all dz by (simp add: dropWhile_append2)
      have a': "takeWhile ?nws ?t = ?t" using all by (simp add: takeWhile_eq_all_conv)
      have b': "dropWhile ?nws ?t = []" using all by simp
      have "spec_words z = []" using "1.prems" by (rule spec_words_all_ws)
      moreover have "spec_words [] = []" by (rule spec_words_blank) simp
      ultimately have l: "spec_words (?t @ z) = [?t]" and e: "spec_words [] = []"
        using stz a b by simp_all
      show ?thesis unfolding l a' b' e ..
    qed
    finally show ?thesis using su by simp
  qed
qed


lemma split_ws_step:
  assumes "dropWhile (\<lambda>c. \<not> isWhiteSpace c) s \<noteq> []"
  shows "split_ws s = takeWhile (\<lambda>c. \<not> isWhiteSpace c) s
     # split_ws (dropWhile isWhiteSpace (dropWhile (\<lambda>c. \<not> isWhiteSpace c) s))"
proof -
  have "split_ws s = (let w = takeWhile (\<lambda>c. \<not> isWhiteSpace c) s;
          r = dropWhile (\<lambda>c. \<not> isWhiteSpace c) s
      in if r = [] then [w] else w # split_ws (dropWhile isWhiteSpace r))"
    by (rule split_ws.simps)
  also have "\<dots> = takeWhile (\<lambda>c. \<not> isWhiteSpace c) s
     # split_ws (dropWhile isWhiteSpace (dropWhile (\<lambda>c. \<not> isWhiteSpace c) s))"
    unfolding Let_def if_not_P[OF assms] ..
  finally show ?thesis .
qed

lemma split_ws_last:
  assumes "dropWhile (\<lambda>c. \<not> isWhiteSpace c) s = []"
  shows "split_ws s = [takeWhile (\<lambda>c. \<not> isWhiteSpace c) s]"
proof -
  have "split_ws s = (let w = takeWhile (\<lambda>c. \<not> isWhiteSpace c) s;
          r = dropWhile (\<lambda>c. \<not> isWhiteSpace c) s
      in if r = [] then [w] else w # split_ws (dropWhile isWhiteSpace r))"
    by (rule split_ws.simps)
  also have "\<dots> = [takeWhile (\<lambda>c. \<not> isWhiteSpace c) s]"
    unfolding Let_def if_P[OF assms] ..
  finally show ?thesis .
qed

lemma split_ws_words:
  "s \<noteq> [] \<Longrightarrow> \<not> isWhiteSpace (hd s) \<Longrightarrow> \<not> isWhiteSpace (last s) \<Longrightarrow> split_ws s = spec_words s"
proof (induction s rule: split_ws.induct)
  case (1 s)
  let ?nws = "\<lambda>c. \<not> isWhiteSpace c"
  let ?w = "takeWhile ?nws s"
  let ?r = "dropWhile ?nws s"
  have ds: "dropWhile isWhiteSpace s = s" using "1.prems" by (cases s) auto
  have ne: "dropWhile isWhiteSpace s \<noteq> []" using ds "1.prems" by simp
  have sw: "spec_words s = ?w # spec_words ?r" using spec_words_step[OF ne] ds by simp
  show ?case
  proof (cases "?r = []")
    case True
    have "split_ws s = [?w]" using True by (rule split_ws_last)
    moreover have "spec_words ?r = []" unfolding True by (rule spec_words_blank) simp
    ultimately show ?thesis using sw by simp
  next
    case False
    let ?r' = "dropWhile isWhiteSpace ?r"
    have sp: "split_ws s = ?w # split_ws ?r'"
      using False by (rule split_ws_step)
    have lr: "last ?r = last s"
      using last_appendR[OF False, of "takeWhile ?nws s"] by simp
    have "last ?r \<in> set ?r" using False by simp
    then have ex: "\<exists>x \<in> set ?r. \<not> isWhiteSpace x" using lr "1.prems" by auto
    then have r'ne: "?r' \<noteq> []" by simp
    have hd': "\<not> isWhiteSpace (hd ?r')" using r'ne by (rule hd_not_ws)
    have "last ?r' = last ?r"
      using last_appendR[OF r'ne, of "takeWhile isWhiteSpace ?r"] by simp
    then have last': "\<not> isWhiteSpace (last ?r')" using lr "1.prems" by simp
    have "split_ws ?r' = spec_words ?r'"
      using "1.IH"[OF refl refl False r'ne hd' last'] .
    then show ?thesis using sp sw spec_words_dropWhile[of ?r] by simp
  qed
qed

lemma split_ws_Nil: "split_ws [] = [[]]"
  by (subst split_ws.simps) simp

lemma trim_blank:
  assumes "dropWhile isWhiteSpace b = []"
  shows "trim b = []"
  unfolding trim_def assms by simp

lemma trim_words:
  assumes ne: "dropWhile isWhiteSpace b \<noteq> []"
  shows "split_ws (trim b) = spec_words b"
proof -
  let ?t = "dropWhile isWhiteSpace b"
  let ?d = "dropWhile isWhiteSpace (rev ?t)"
  let ?z = "rev (takeWhile isWhiteSpace (rev ?t))"
  have hdt: "\<not> isWhiteSpace (hd ?t)" using ne by (rule hd_not_ws)
  have "hd ?t \<in> set (rev ?t)" using ne by simp
  then have dne: "?d \<noteq> []" using hdt by auto
  have hdd: "\<not> isWhiteSpace (hd ?d)" using dne by (rule hd_not_ws)
  have "last ?d = last (rev ?t)"
    using last_appendR[OF dne, of "takeWhile isWhiteSpace (rev ?t)"] by simp
  then have lastd: "\<not> isWhiteSpace (last ?d)" using hdt ne by (simp add: last_rev)
  have tr: "trim b = rev ?d" by (simp add: trim_def)
  have a: "trim b \<noteq> []" using tr dne by simp
  have b: "\<not> isWhiteSpace (hd (trim b))" using tr lastd dne by (simp add: hd_rev)
  have c: "\<not> isWhiteSpace (last (trim b))" using tr hdd dne by (simp add: last_rev)
  have "rev ?d @ ?z = rev (takeWhile isWhiteSpace (rev ?t) @ ?d)"
    by (simp only: rev_append)
  also have "\<dots> = rev (rev ?t)" by (simp only: takeWhile_dropWhile_id)
  finally have dec: "?t = trim b @ ?z" by (simp only: tr rev_rev_ident)
  have zws: "\<forall>c \<in> set ?z. isWhiteSpace c" by (auto dest: set_takeWhileD)
  have "spec_words b = spec_words ?t" by (simp add: spec_words_dropWhile)
  also have "\<dots> = spec_words (trim b @ ?z)" using dec by simp
  also have "\<dots> = spec_words (trim b)" using zws by (rule spec_words_append_ws)
  finally show ?thesis using split_ws_words[OF a b c] by simp
qed

lemma toLowerCase_Nil: "toLowerCase [] \<noteq> js ''bestmove''"
  by (simp add: toLowerCase_def js_def)

lemma case_tail_Some:
  "(case xs of [] \<Rightarrow> Some w | [x] \<Rightarrow> Some w | x # t # r \<Rightarrow> Some t)
   = Some (case xs of [] \<Rightarrow> w | [x] \<Rightarrow> w | x # t # r \<Rightarrow> t)"
  by (simp split: list.splits)

lemma candidate_index:
  assumes ps: "ps = w # ws" and nonempty: "\<forall>x \<in> set ps. x \<noteq> []"
  shows "(case findIndex P ps of
            Some i \<Rightarrow> if i + 1 < length ps \<and> ps ! (i + 1) \<noteq> [] then ps ! (i + 1) else ps ! 0
          | None \<Rightarrow> ps ! 0)
       = (case dropWhile (\<lambda>x. \<not> P x) ps of _ # t # _ \<Rightarrow> t | _ \<Rightarrow> w)"
proof (cases "findIndex P ps")
  case None
  then show ?thesis using findIndex_None[OF None] ps by simp
next
  case (Some i)
  from findIndex_Some[OF Some] have i: "i < length ps" and d: "dropWhile (\<lambda>x. \<not> P x) ps = drop i ps"
    by simp_all
  show ?thesis
  proof (cases "i + 1 < length ps")
    case True
    have a: "drop i ps = ps ! i # drop (Suc i) ps"
      using i by (simp add: Cons_nth_drop_Suc)
    have b: "drop (Suc i) ps = ps ! Suc i # drop (Suc (Suc i)) ps"
      using True by (simp add: Cons_nth_drop_Suc)
    have "ps ! Suc i \<noteq> []" using True nonempty by simp
    then show ?thesis using Some d True a b by simp
  next
    case False
    have a: "drop i ps = ps ! i # drop (Suc i) ps"
      using i by (simp add: Cons_nth_drop_Suc)
    have "drop (Suc i) ps = []" using False by simp
    then show ?thesis using Some d False ps a by simp
  qed
qed

lemma parseBestMove_refines: "parseBestMove best = spec_parse best"
proof (cases best)
  case None
  then show ?thesis by (simp add: parseBestMove_def spec_parse_def)
next
  case (Some b)
  show ?thesis
  proof (cases "dropWhile isWhiteSpace b = []")
    case True
    then have "spec_candidate b = None" by (simp add: spec_candidate_def spec_words_blank)
    moreover have "parseBestMove (Some b) = None"
      using True toLowerCase_Nil
      by (simp add: parseBestMove_def trim_blank split_ws_Nil Let_def)
    ultimately show ?thesis using Some by (simp add: spec_parse_def)
  next
    case False
    then have bne: "b \<noteq> []" by auto
    let ?ps = "spec_words b"
    obtain w ws where ps: "?ps = w # ws" using spec_words_step[OF False] by blast
    have nonempty: "\<forall>x \<in> set ?ps. x \<noteq> []" using spec_words_nonempty by blast
    have parts: "split_ws (trim b) = ?ps" using False by (rule trim_words)
    let ?P = "\<lambda>p. toLowerCase p = js ''bestmove''"
    let ?c = "case dropWhile (\<lambda>p. \<not> ?P p) ?ps of _ # t # _ \<Rightarrow> t | _ \<Rightarrow> w"
    have "spec_candidate b =
        (case dropWhile (\<lambda>p. \<not> ?P p) ?ps of _ # t # _ \<Rightarrow> Some t | _ \<Rightarrow> Some w)"
      unfolding spec_candidate_def ps list.case ..
    also have "\<dots> = Some ?c" by (rule case_tail_Some)
    finally have cand: "spec_candidate b = Some ?c" .
    have src: "parseBestMove (Some b) =
        (let uci = (case findIndex ?P ?ps of
                      Some i \<Rightarrow> if i + 1 < length ?ps \<and> ?ps ! (i + 1) \<noteq> [] then ?ps ! (i + 1) else ?ps ! 0
                    | None \<Rightarrow> ?ps ! 0)
         in if uci_pattern uci then Some uci else None)"
      unfolding parseBestMove_def option.case if_not_P[OF bne] parts Let_def ..
    have "parseBestMove (Some b) = (if uci_pattern ?c then Some ?c else None)"
      unfolding src candidate_index[OF ps nonempty, of ?P] Let_def ..
    then show ?thesis
      unfolding Some spec_parse_def option.case cand uci_pattern_spec .
  qed
qed

lemma parseBestMove_pattern: "parseBestMove best = Some u \<Longrightarrow> spec_pattern u"
  unfolding parseBestMove_refines
  by (auto simp: spec_parse_def split: option.splits if_splits)

lemma fetchBestMove_Inr:
  "fetchBestMove outcome = Inr b \<Longrightarrow>
   \<exists>status json. outcome = Http status json \<and>
     bestUci b = parseBestMove (case bestmove json of JString x \<Rightarrow> Some x | _ \<Rightarrow> None)"
  by (auto simp: fetchBestMove_def split: fetch_outcome.splits if_splits)

lemma resume_applies_only_tokens:
  assumes "history (engineMove_resume R r outcome s) \<noteq> history s"
  shows "\<exists>status json u. outcome = Http status json \<and>
     parseBestMove (case bestmove json of JString x \<Rightarrow> Some x | _ \<Rightarrow> None) = Some u \<and>
     spec_pattern u"
proof (cases "fetchBestMove outcome")
  case (Inl msg)
  then show ?thesis using assms by (simp add: resume_threw)
next
  case (Inr b)
  show ?thesis
  proof (cases "truthy (bestUci b)")
    case False
    then show ?thesis using assms Inr by (simp add: resume_no_token)
  next
    case True
    then obtain u where u: "bestUci b = Some u" by (cases "bestUci b") auto
    from fetchBestMove_Inr[OF Inr] obtain status json where o: "outcome = Http status json"
      and p: "bestUci b = parseBestMove (case bestmove json of JString x \<Rightarrow> Some x | _ \<Rightarrow> None)"
      by blast
    from p u have "parseBestMove (case bestmove json of JString x \<Rightarrow> Some x | _ \<Rightarrow> None) = Some u"
      by simp
    with o parseBestMove_pattern[OF this] show ?thesis by blast
  qed
qed

text \<open>
  C8. \<open>parseBestMove\<close> returns \<open>null\<close> for \<open>null\<close>, and for a string it returns the candidate
  token (the word after the first \<open>bestmove\<close> in any letter case, else the first word) when
  that token matches the strict pattern, and \<open>null\<close> otherwise. A token it returns has four
  or five code units: a file, a rank, a file, a rank and, if there is a fifth, one of
  q, r, b, n. When a settled request changes the move history, the response carried a
  \<open>bestmove\<close> string from which \<open>parseBestMove\<close> extracted such a token.
\<close>

theorem parseBestMove_extracts_strict_token:
  "parseBestMove None = None \<and> parseBestMove best = spec_parse best \<and>
   (\<forall>u. parseBestMove best = Some u \<longrightarrow>
      (length u = 4 \<or> length u = 5) \<and> isFile (u ! 0) \<and> isRank (u ! 1) \<and>
      isFile (u ! 2) \<and> isRank (u ! 3) \<and> (length u = 5 \<longrightarrow> isPromo (u ! 4))) \<and>
   (history (engineMove_resume R r outcome s) \<noteq> history s \<longrightarrow>
      (\<exists>status json u. outcome = Http status json \<and>
         parseBestMove (case bestmove json of JString x \<Rightarrow> Some x | _ \<Rightarrow> None) = Some u \<and>
         spec_pattern u))"
proof -
  have "\<forall>u. parseBestMove best = Some u \<longrightarrow>
      (length u = 4 \<or> length u = 5) \<and> isFile (u ! 0) \<and> isRank (u ! 1) \<and>
      isFile (u ! 2) \<and> isRank (u ! 3) \<and> (length u = 5 \<longrightarrow> isPromo (u ! 4))"
    using parseBestMove_pattern[of best] unfolding spec_pattern_def by blast
  moreover have "parseBestMove None = None" by (simp add: parseBestMove_def)
  ultimately show ?thesis
    using parseBestMove_refines[of best] resume_applies_only_tokens[of R r outcome s] by blast
qed

theorem parseBestMove_witness:
  "parseBestMove (Some (js ''bestmove e7e8q ponder a1a2'')) = Some (js ''e7e8q'') \<and>
   spec_parse (Some (js ''bestmove e7e8q ponder a1a2'')) = Some (js ''e7e8q'') \<and>
   parseBestMove (Some (js ''info depth 12 bestmove'')) = None \<and>
   parseBestMove (Some (js ''E2E4'')) = None"
proof -
  have a: "spec_parse (Some (js ''bestmove e7e8q ponder a1a2'')) = Some (js ''e7e8q'')"
    by code_simp
  have b: "spec_parse (Some (js ''info depth 12 bestmove'')) = None" by code_simp
  have c: "spec_parse (Some (js ''E2E4'')) = None" by code_simp
  have r: "parseBestMove best = spec_parse best" for best
    using parseBestMove_extracts_strict_token[of best] by blast
  show ?thesis using a b c by (simp add: r)
qed

section \<open>The small rules engine has the two properties\<close>

lemma find_again:
  "find (\<lambda>x. A x \<and> (B x = None \<or> B x = pr)) xs = Some m \<Longrightarrow>
   find (\<lambda>x. A x \<and> (B x = None \<or> B x = B m)) xs = Some m"
proof (induction xs)
  case Nil
  then show ?case by simp
next
  case (Cons x xs)
  show ?case
  proof (cases "A x \<and> (B x = None \<or> B x = pr)")
    case True
    with Cons.prems have "x = m" by simp
    with True show ?thesis by simp
  next
    case False
    with Cons.prems have f: "find (\<lambda>x. A x \<and> (B x = None \<or> B x = pr)) xs = Some m" by simp
    then have m: "A m \<and> (B m = None \<or> B m = pr)" by (auto simp: find_Some_iff)
    have "\<not> (A x \<and> (B x = None \<or> B x = B m))" using False m by auto
    then have "find (\<lambda>x. A x \<and> (B x = None \<or> B x = B m)) (x # xs) =
        find (\<lambda>x. A x \<and> (B x = None \<or> B x = B m)) xs"
      by (simp only: find.simps if_False)
    with Cons.IH[OF f] show ?thesis by simp
  qed
qed

lemma board_moves_from: "m \<in> set (board_moves b col sq) \<Longrightarrow> from_sq m = sq"
  by (auto simp: board_moves_def Let_def split: if_splits)

lemma pawn_move_Moved:
  assumes "pawn_move p f t pr = Moved p' m"
  shows "find (\<lambda>x. (from_sq x = f \<and> to_sq x = t) \<and> (promotion x = None \<or> promotion x = pr))
           (pawn_moves p f) = Some m \<and> p' = pawn_make p m"
  using assms by (auto simp: pawn_move_def conj_assoc split: option.splits)

lemma pawn_fen_determines_moves: "fen_determines_moves pawn_rules"
  unfolding fen_determines_moves_def
proof (intro allI impI, elim conjE)
  fix p q :: jstr and f t pr p' m
  assume e: "fen pawn_rules p = fen pawn_rules q" and mv: "move pawn_rules p f t pr = Moved p' m"
  from e have pq: "p = q" by (simp add: pawn_rules_def)
  from mv have "pawn_move p f t pr = Moved p' m" by (simp add: pawn_rules_def)
  from pawn_move_Moved[OF this]
  have fnd: "find (\<lambda>x. (from_sq x = f \<and> to_sq x = t) \<and> (promotion x = None \<or> promotion x = pr))
           (pawn_moves p f) = Some m" and p': "p' = pawn_make p m" by simp_all
  from fnd have ft: "from_sq m = f" "to_sq m = t" by (auto simp: find_Some_iff)
  from find_again[OF fnd]
  have "pawn_move p (from_sq m) (to_sq m) (promotion m) = Moved (pawn_make p m) m"
    by (simp add: pawn_move_def ft conj_assoc)
  then show "\<exists>q' m'. move pawn_rules q (from_sq m) (to_sq m) (promotion m) = Moved q' m' \<and>
      fen pawn_rules q' = fen pawn_rules p'"
    using pq p' by (simp add: pawn_rules_def)
qed

lemma pawn_moves_cover_move: "moves_cover_move pawn_rules"
  unfolding moves_cover_move_def
proof (intro allI impI)
  fix p :: jstr and f t pr p' m
  assume "move pawn_rules p f t pr = Moved p' m"
  then have "pawn_move p f t pr = Moved p' m" by (simp add: pawn_rules_def)
  from pawn_move_Moved[OF this]
  have "m \<in> set (pawn_moves p f)" "to_sq m = t" by (auto simp: find_Some_iff)
  then show "t \<in> to_sq ` set (moves pawn_rules p f)" by (auto simp: pawn_rules_def)
qed

section \<open>The example sessions are reached\<close>

lemma run_append:
  "run R (xs @ ys) s = (case run R xs s of None \<Rightarrow> None | Some s' \<Rightarrow> run R ys s')"
  by (induction xs arbitrary: s) (auto split: option.splits)

lemma run_after: "run R xs s = Some s' \<Longrightarrow> run R (xs @ ys) s = run R ys s'"
  by (simp add: run_append)

lemma reach_after_e4:
  "run pawn_rules [Click (js ''e2''), Click (js ''e4'')] (init pawn_rules) = Some after_e4"
  by code_simp

lemma reach_e2_selected:
  "run pawn_rules [Click (js ''e2'')] (init pawn_rules) = Some e2_selected"
  by code_simp

lemma reach_pending: "run pawn_rules promotion_line (init pawn_rules) = Some pending"
  by code_simp

lemma reach_rejecting:
  "run pawn_rules [EngineButton, Settle 0 (reply ''bestmove h2h3'')] pending = Some rejecting"
  by code_simp

section \<open>The objects of a reachable state exist\<close>

lemma engineMove_objects:
  "objects_exist s \<Longrightarrow> clo_game c < length (heap s) \<Longrightarrow> objects_exist (engineMove R c f s)"
  by (auto simp: objects_exist_def engineMove_def Let_def)

lemma applied_objects:
  "objects_exist s \<Longrightarrow> objects_exist (applied R a p' m s)"
  by (auto simp: objects_exist_def applied_def less_Suc_eq)

lemma applied_heap_length: "length (heap (applied R a p' m s)) = Suc (length (heap s))"
  by (simp add: applied_def)

lemma objects_frame:
  "heap s' = heap s \<Longrightarrow> game s' = game s \<Longrightarrow> inflight s' = inflight s \<Longrightarrow>
   timers s' = timers s \<Longrightarrow> objects_exist s \<Longrightarrow> objects_exist s'"
  by (simp add: objects_exist_def)

lemma onSquareClick_objects:
  assumes "objects_exist s"
  shows "objects_exist (onSquareClick R sq s)"
proof -
  have g: "game s < length (heap s)" using assms by (simp add: objects_exist_def)
  have a: "objects_exist ((applied R (game s) p' m s)\<lparr> selected := None, legalTargets := [] \<rparr>)"
    for p' m
    using applied_objects[OF assms, of R "game s" p' m] by (simp add: objects_exist_def)
  have b: "objects_exist (engineMove R \<lparr> clo_game = game s, clo_depth = d, clo_enabled = e \<rparr> f
      ((applied R (game s) p' m s)\<lparr> selected := None, legalTargets := [] \<rparr>))" for p' m d e f
    using a g by (intro engineMove_objects) (simp_all add: applied_def)
  have c: "objects_exist (s\<lparr> selected := x, legalTargets := y \<rparr>)" for x y
    using assms by (simp add: objects_exist_def)
  have d: "objects_exist (s\<lparr> promotionSquare := x \<rparr>)" for x
    using assms by (simp add: objects_exist_def)
  show ?thesis
    using assms a b c d
    by (simp add: onSquareClick_def Let_def split: move_result.splits)
qed

lemma handlePromotion_objects:
  assumes "objects_exist s"
  shows "objects_exist (handlePromotion R pc s)"
proof -
  have g: "game s < length (heap s)" using assms by (simp add: objects_exist_def)
  have a: "objects_exist ((applied R (game s) p' m s)\<lparr> promotionSquare := None, selected := None,
      legalTargets := [] \<rparr>)" for p' m
    using applied_objects[OF assms, of R "game s" p' m] by (simp add: objects_exist_def)
  have b: "objects_exist (engineMove R \<lparr> clo_game = game s, clo_depth = d, clo_enabled = e \<rparr> f
      ((applied R (game s) p' m s)\<lparr> promotionSquare := None, selected := None,
      legalTargets := [] \<rparr>))" for p' m d e f
    using a g by (intro engineMove_objects) (simp_all add: applied_def)
  show ?thesis
    using assms a b by (simp add: handlePromotion_def Let_def split: move_result.splits)
qed

lemma newGame_objects: "objects_exist s \<Longrightarrow> objects_exist (newGame R playAs s)"
  by (auto simp: objects_exist_def newGame_def Let_def less_Suc_eq)

lemma engineButton_objects:
  assumes "objects_exist s"
  shows "objects_exist (engineButton R s)"
proof -
  have "game s < length (heap s)" using assms by (simp add: objects_exist_def)
  then have "objects_exist (engineMove R \<lparr> clo_game = game s, clo_depth = d, clo_enabled = e \<rparr> None s)"
    for d e
    using assms by (intro engineMove_objects) simp_all
  then show ?thesis using assms by (simp add: engineButton_def)
qed

lemma resume_objects:
  assumes "objects_exist s"
  shows "objects_exist (engineMove_resume R r outcome s)"
proof -
  have u: "objects_exist (s\<lparr> evalInfo := e, error := x, busy := y \<rparr>)"
       "objects_exist (s\<lparr> evalInfo := e, busy := y \<rparr>)"
       "objects_exist (s\<lparr> error := x, busy := y \<rparr>)" for e x y
    using assms by (simp_all add: objects_exist_def)
  have a: "objects_exist ((applied R a p' m (s\<lparr> evalInfo := e \<rparr>))\<lparr> busy := False \<rparr>)" for a p' m e
  proof -
    have "objects_exist (s\<lparr> evalInfo := e \<rparr>)" using assms by (simp add: objects_exist_def)
    from applied_objects[OF this, of R a p' m] show ?thesis by (simp add: objects_exist_def)
  qed
  show ?thesis
  proof (cases "fetchBestMove outcome")
    case (Inl msg)
    then show ?thesis using u by (simp add: resume_threw)
  next
    case (Inr b)
    show ?thesis
    proof (cases "truthy (bestUci b)")
      case False
      then show ?thesis using Inr u by (simp add: resume_no_token)
    next
      case True
      show ?thesis using u a by (simp add: resume_token[OF Inr True] split: move_result.splits)
    qed
  qed
qed

lemma handle_objects:
  assumes "objects_exist s" and "handle R ev s = Some s'"
  shows "objects_exist s'"
proof (cases ev)
  case (Click sq)
  then show ?thesis using assms onSquareClick_objects[OF assms(1)] by (auto simp: handle_def)
next
  case (Promote pc)
  then show ?thesis using assms handlePromotion_objects[OF assms(1)] by (auto simp: handle_def)
next
  case EngineButton
  then show ?thesis using assms engineButton_objects[OF assms(1)] by (auto simp: handle_def)
next
  case (NewGame playAs)
  then show ?thesis using assms newGame_objects[OF assms(1)] by (auto simp: handle_def)
next
  case ToggleEngine
  then have "s' = s\<lparr> engineEnabled := \<not> engineEnabled s \<rparr>" using assms(2) by (simp add: handle_def)
  then show ?thesis using assms(1) by (simp add: objects_exist_def)
next
  case Flip
  then have "s' = s\<lparr> flip := \<not> flip s \<rparr>" using assms(2) by (simp add: handle_def)
  then show ?thesis using assms(1) by (simp add: objects_exist_def)
next
  case (SetDepth d)
  then have "s' = s\<lparr> engineDepth := d \<rparr>" using assms(2) by (simp add: handle_def)
  then show ?thesis using assms(1) by (simp add: objects_exist_def)
next
  case TimerFires
  then obtain c f ts where t: "timers s = (c, f) # ts"
      and s': "s' = engineMove R c (Some f) (s\<lparr> timers := ts \<rparr>)"
    using assms(2) by (auto simp: handle_def split: list.splits)
  have "objects_exist (s\<lparr> timers := ts \<rparr>)" and "clo_game c < length (heap (s\<lparr> timers := ts \<rparr>))"
    using assms(1) t by (auto simp: objects_exist_def)
  then show ?thesis unfolding s' by (rule engineMove_objects)
next
  case (Settle i outcome)
  then have i: "i < length (inflight s)"
    and s': "s' = engineMove_resume R (inflight s ! i) outcome
          (s\<lparr> inflight := take i (inflight s) @ drop (Suc i) (inflight s) \<rparr>)"
    using assms(2) by (auto simp: handle_def split: if_splits)
  have "objects_exist (s\<lparr> inflight := take i (inflight s) @ drop (Suc i) (inflight s) \<rparr>)"
    using assms(1) by (auto simp: objects_exist_def dest: in_set_takeD in_set_dropD)
  then show ?thesis unfolding s' by (rule resume_objects)
qed

lemma run_objects:
  "objects_exist s \<Longrightarrow> run R evs s = Some s' \<Longrightarrow> objects_exist s'"
proof (induction evs arbitrary: s)
  case Nil
  then show ?case by simp
next
  case (Cons ev evs)
  from Cons.prems(2) obtain s1 s2 where h: "handle R ev s = Some s1"
      and r: "run R evs (rerender R s s1) = Some s'"
    by (auto simp: step_def split: option.splits)
  have "objects_exist s1" using handle_objects[OF Cons.prems(1) h] .
  then have "objects_exist (rerender R s s1)" by (simp add: objects_exist_def rerender_def)
  from Cons.IH[OF this r] show ?case .
qed

lemma reachable_objects_exist:
  assumes "run R evs (init R) = Some s"
  shows "objects_exist s"
proof -
  have "objects_exist (init R)" by (simp add: objects_exist_def init_def)
  from run_objects[OF this assms] show ?thesis .
qed

section \<open>Square clicks\<close>

text \<open>
  C9. While \<open>busy\<close> is set or the game is over, a click on any square leaves the whole
  session state as it is.
\<close>

theorem busy_or_over_click_is_noop:
  "busy s \<or> isGameOver R (position s) \<Longrightarrow> onSquareClick R sq s = s"
  by (simp add: onSquareClick_def)

theorem busy_or_over_click_witness:
  "busy after_e4 \<and> onSquareClick pawn_rules (js ''d2'') after_e4 = after_e4 \<and>
   isGameOver pawn_rules (position stalemate) \<and>
   onSquareClick pawn_rules (js ''h8'') stalemate = stalemate"
proof -
  have b: "busy after_e4" by (simp add: after_e4_def)
  have o: "isGameOver pawn_rules (position stalemate)" by code_simp
  from busy_or_over_click_is_noop[of after_e4 pawn_rules "js ''d2''"]
       busy_or_over_click_is_noop[of stalemate pawn_rules "js ''h8''"] b o
  show ?thesis by blast
qed

text \<open>
  C6. With a square selected, a click on a square that is not the destination of a legal
  move from the selection and holds no piece of the side to move changes nothing: the
  selection, the legal targets, the position and the history stay as they are. The rules
  engine is taken to accept no move to a square its move list leaves out.
\<close>

theorem illegal_target_click_is_noop:
  assumes "selected s = Some sel"
    and "sq \<notin> to_sq ` set (moves R (position s) sel)"
    and "\<not> ownPiece R (position s) sq"
    and "moves_cover_move R"
  shows "onSquareClick R sq s = s"
proof -
  have nf: "find (\<lambda>m. to_sq m = sq) (moves R (position s) sel) = None"
    using assms(2) by (auto simp: find_None_iff)
  have "move R (position s) sel sq (Some (js ''q'')) \<noteq> Moved p' m" for p' m
    using assms(2,4) unfolding moves_cover_move_def by blast
  then show ?thesis
    using assms(1,3) nf by (simp add: onSquareClick_def Let_def split: move_result.splits)
qed

theorem illegal_target_click_witness:
  "run pawn_rules [Click (js ''e2'')] (init pawn_rules) = Some e2_selected \<and>
   selected e2_selected = Some (js ''e2'') \<and>
   js ''e5'' \<notin> to_sq ` set (moves pawn_rules (position e2_selected) (js ''e2'')) \<and>
   \<not> ownPiece pawn_rules (position e2_selected) (js ''e5'') \<and>
   onSquareClick pawn_rules (js ''e5'') e2_selected = e2_selected \<and>
   legalTargets e2_selected = [js ''e3'', js ''e4'']"
proof -
  have a: "selected e2_selected = Some (js ''e2'')" by (simp add: e2_selected_def)
  have b: "js ''e5'' \<notin> to_sq ` set (moves pawn_rules (position e2_selected) (js ''e2''))"
    by code_simp
  have c: "\<not> ownPiece pawn_rules (position e2_selected) (js ''e5'')" by code_simp
  have l: "legalTargets e2_selected = [js ''e3'', js ''e4'']" by (simp add: e2_selected_def)
  from illegal_target_click_is_noop[OF a b c pawn_moves_cover_move] a b c l reach_e2_selected
  show ?thesis by blast
qed

section \<open>The promotion dialog\<close>

text \<open>
  C5, as the code has it. When the rules engine refuses the pending move with the chosen
  piece, \<open>handlePromotion\<close> changes nothing: position and history stay, and so do the
  pending promotion and the selection. The dialog is not closed.
\<close>

theorem rejected_promotion_changes_nothing:
  assumes "truthy (promotionSquare s)" and "truthy (selected s)"
    and "\<forall>p' m. move R (position s) (the (selected s)) (the (promotionSquare s)) (Some pc) \<noteq> Moved p' m"
  shows "handlePromotion R pc s = s"
  using assms by (simp add: handlePromotion_def split: move_result.splits)

theorem rejected_promotion_witness:
  "truthy (promotionSquare rejecting) \<and> truthy (selected rejecting) \<and>
   move pawn_rules (position rejecting) (the (selected rejecting)) (the (promotionSquare rejecting))
     (Some (js ''q'')) = Rejected \<and>
   handlePromotion pawn_rules (js ''q'') rejecting = rejecting"
proof -
  have a: "truthy (promotionSquare rejecting)" by code_simp
  have b: "truthy (selected rejecting)" by code_simp
  have c: "move pawn_rules (position rejecting) (the (selected rejecting))
      (the (promotionSquare rejecting)) (Some (js ''q'')) = Rejected"
    by code_simp
  then have d: "\<forall>p' m. move pawn_rules (position rejecting) (the (selected rejecting))
      (the (promotionSquare rejecting)) (Some (js ''q'')) \<noteq> Moved p' m"
    by simp
  from rejected_promotion_changes_nothing[OF a b d] a b c show ?thesis by blast
qed

text \<open>
  At a session reached from the initial one the rules engine refuses the pending move,
  and after \<open>handlePromotion\<close> the promotion is still pending and its square still
  selected.
\<close>

theorem rejected_promotion_counterexample:
  "run pawn_rules (promotion_line @ [EngineButton, Settle 0 (reply ''bestmove h2h3'')])
     (init pawn_rules) = Some rejecting \<and>
   move pawn_rules (position rejecting) (the (selected rejecting)) (the (promotionSquare rejecting))
     (Some (js ''q'')) = Rejected \<and>
   promotionSquare (handlePromotion pawn_rules (js ''q'') rejecting) = Some (js ''b8'') \<and>
   selected (handlePromotion pawn_rules (js ''q'') rejecting) = Some (js ''a7'')"
proof -
  have r: "run pawn_rules (promotion_line @ [EngineButton, Settle 0 (reply ''bestmove h2h3'')])
     (init pawn_rules) = Some rejecting"
    using run_after[OF reach_pending] reach_rejecting by simp
  have c: "move pawn_rules (position rejecting) (the (selected rejecting))
      (the (promotionSquare rejecting)) (Some (js ''q'')) = Rejected"
    by code_simp
  have p: "promotionSquare (handlePromotion pawn_rules (js ''q'') rejecting) = Some (js ''b8'')"
    by code_simp
  have s: "selected (handlePromotion pawn_rules (js ''q'') rejecting) = Some (js ''a7'')"
    by code_simp
  from r c p s show ?thesis by blast
qed

section \<open>New game\<close>

text \<open>
  C10. \<open>newGame\<close> leaves \<open>busy\<close> and the last-move record as they are, while it empties
  the history: the highlight computed from the record can show a move of the game that
  was left.
\<close>

theorem newGame_keeps_busy_and_lastMove:
  "busy (newGame R playAs s) = busy s \<and> lastMoveRef (newGame R playAs s) = lastMoveRef s \<and>
   lastFromTo (newGame R playAs s) = lastFromTo s \<and> history (newGame R playAs s) = []"
  by (simp add: newGame_def lastFromTo_def Let_def)

theorem newGame_keeps_witness:
  "busy (newGame pawn_rules White after_e4) \<and>
   lastMoveRef (newGame pawn_rules White after_e4) = Some (pawn_push ''e2'' ''e4'') \<and>
   lastFromTo (newGame pawn_rules White after_e4) = Some (js ''e2'', js ''e4'') \<and>
   history (newGame pawn_rules White after_e4) = []"
  using newGame_keeps_busy_and_lastMove[of pawn_rules White after_e4]
  by (simp add: after_e4_def lastFromTo_def pawn_push_def)

text \<open>
  C4 on the code. \<open>newGame\<close> sets the starting position and clears the selection, the
  history, the evaluation and the error, and leaves \<open>promotionSquare\<close> as it is. At the
  session with the promotion dialog open that the clicks and replies of \<open>promotion_line\<close>
  reach from the initial session: after \<open>newGame\<close> the position is the starting position,
  the history is empty and the selection is cleared, and the promotion on b8 is still
  pending.
\<close>

theorem newGame_keeps_pending_promotion:
  "promotionSquare (newGame R playAs s) = promotionSquare s \<and>
   position (newGame R playAs s) = new_chess R \<and> selected (newGame R playAs s) = None \<and>
   legalTargets (newGame R playAs s) = [] \<and> history (newGame R playAs s) = [] \<and>
   evalInfo (newGame R playAs s) = \<lparr> cp = None, mate_in = JNull \<rparr> \<and>
   error (newGame R playAs s) = None \<and>
   run pawn_rules promotion_line (init pawn_rules) = Some pending \<and>
   promotionSquare pending = Some (js ''b8'') \<and>
   promotionSquare (newGame pawn_rules White pending) = Some (js ''b8'') \<and>
   selected (newGame pawn_rules White pending) = None \<and>
   history (newGame pawn_rules White pending) = [] \<and>
   position (newGame pawn_rules White pending) = new_chess pawn_rules"
  using reach_pending
  by (simp add: newGame_def pending_def position_def Let_def)

text \<open>
  In such a state neither a choice in the dialog nor a click on the board changes
  anything.
\<close>

lemma pending_promotion_without_selection_is_stuck:
  "truthy (promotionSquare s) \<Longrightarrow> \<not> truthy (selected s) \<Longrightarrow>
   handlePromotion R pc s = s \<and> onSquareClick R sq s = s"
  by (simp add: handlePromotion_def onSquareClick_def)

section \<open>Oracle requests\<close>

text \<open>The messages the handler sets are shown: none of them is the empty string, but
  for a thrown value whose own message is the empty string.\<close>

lemma noMoveMessage_shown: "noMoveMessage \<noteq> []"
  by (simp add: noMoveMessage_def)

lemma callErrorMessage_shown: "callErrorMessage \<noteq> []"
  by (simp add: callErrorMessage_def)

lemma caught_shown: "truthy (Some (caught msg)) \<longleftrightarrow> msg \<noteq> Some []"
  by (cases msg) (simp_all add: caught_def callErrorMessage_shown)

lemma http_message_shown: "js ''Engine HTTP '' @ decimal status \<noteq> []"
  by (simp add: js_def)

text \<open>
  C7, as the code has it. A response without a valid move token, a response with a status
  outside 200-299 and a failed fetch end the request the same way. The handler returns;
  \<open>error\<close> is the fixed no-move message, \<open>Engine HTTP\<close> and the status, or the message of
  the thrown value (the fixed call-error message when it has none); the view shows it
  unless the thrown value's message is the empty string; \<open>busy\<close> is cleared; the request
  leaves the pending ones and the others stay; the objects, the position, the history and
  the last-move record are untouched.
\<close>

theorem engine_failure_is_soft:
  assumes "i < length (inflight s)"
    and "(\<exists>msg. outcome = FetchThrew msg) \<or>
         (\<exists>status json. outcome = Http status json \<and>
            (\<not> (200 \<le> status \<and> status \<le> 299) \<or>
             parseBestMove (case bestmove json of JString b \<Rightarrow> Some b | _ \<Rightarrow> None) = None))"
  shows "\<exists>s'. handle R (Settle i outcome) s = Some s' \<and>
           error s' = Some (case outcome of
                              FetchThrew msg \<Rightarrow> (case msg of Some m \<Rightarrow> m | None \<Rightarrow> callErrorMessage)
                            | Http status json \<Rightarrow>
                                if 200 \<le> status \<and> status \<le> 299 then noMoveMessage
                                else js ''Engine HTTP '' @ decimal status) \<and>
           (truthy (error s') \<longleftrightarrow> outcome \<noteq> FetchThrew (Some [])) \<and>
           \<not> busy s' \<and>
           inflight s' = take i (inflight s) @ drop (Suc i) (inflight s) \<and>
           heap s' = heap s \<and> game s' = game s \<and> position s' = position s \<and>
           history s' = history s \<and> lastMoveRef s' = lastMoveRef s"
proof -
  let ?cut = "s\<lparr> inflight := take i (inflight s) @ drop (Suc i) (inflight s) \<rparr>"
  let ?s' = "engineMove_resume R (inflight s ! i) outcome ?cut"
  let ?m = "case outcome of
              FetchThrew msg \<Rightarrow> (case msg of Some m \<Rightarrow> m | None \<Rightarrow> callErrorMessage)
            | Http status json \<Rightarrow>
                if 200 \<le> status \<and> status \<le> 299 then noMoveMessage
                else js ''Engine HTTP '' @ decimal status"
  have h: "handle R (Settle i outcome) s = Some ?s'" using assms(1) by (rule handle_Settle)
  consider (threw) msg where "outcome = FetchThrew msg"
    | (status) status json where "outcome = Http status json" "\<not> (200 \<le> status \<and> status \<le> 299)"
    | (token) status json where "outcome = Http status json" "200 \<le> status \<and> status \<le> 299"
        "parseBestMove (case bestmove json of JString b \<Rightarrow> Some b | _ \<Rightarrow> None) = None"
    using assms(2) by blast
  then have "error ?s' = Some ?m \<and> (truthy (error ?s') \<longleftrightarrow> outcome \<noteq> FetchThrew (Some [])) \<and>
      \<not> busy ?s' \<and> inflight ?s' = take i (inflight s) @ drop (Suc i) (inflight s) \<and>
      heap ?s' = heap s \<and> game ?s' = game s \<and> position ?s' = position s \<and>
      history ?s' = history s \<and> lastMoveRef ?s' = lastMoveRef s"
  proof cases
    case threw
    then have f: "fetchBestMove outcome = Inl msg" by (simp add: fetchBestMove_def)
    have "truthy (Some (caught msg)) \<longleftrightarrow> msg \<noteq> Some []" by (rule caught_shown)
    then show ?thesis unfolding resume_threw[OF f] using threw
      by (simp add: position_def caught_def)
  next
    case status
    then have f: "fetchBestMove outcome = Inl (Some (js ''Engine HTTP '' @ decimal status))"
      by (simp add: fetchBestMove_def)
    have c: "(200 \<le> status \<and> status \<le> 299) = False" using status(2) by simp
    show ?thesis unfolding resume_threw[OF f] using status(1) http_message_shown[of status]
      by (simp add: position_def caught_def c)
  next
    case token
    then obtain b where f: "fetchBestMove outcome = Inr b" and n: "\<not> truthy (bestUci b)"
      by (simp add: fetchBestMove_def)
    show ?thesis unfolding resume_no_token[OF f n] using token noMoveMessage_shown
      by (simp add: position_def)
  qed
  with h show ?thesis by blast
qed

theorem engine_failure_witness:
  "0 < length (inflight after_e4) \<and>
   parseBestMove (Some (js ''bestmove (none)'')) = None \<and>
   (\<exists>s'. handle pawn_rules (Settle 0 (reply ''bestmove (none)'')) after_e4 = Some s' \<and>
      error s' = Some noMoveMessage \<and> truthy (error s') \<and> \<not> busy s' \<and> inflight s' = [] \<and>
      heap s' = heap after_e4 \<and> game s' = game after_e4 \<and> position s' = position after_e4 \<and>
      history s' = history after_e4 \<and> lastMoveRef s' = lastMoveRef after_e4) \<and>
   (\<exists>s'. handle pawn_rules
            (Settle 0 (Http 503 \<lparr> evaluation = JUndefined, mate = JUndefined, bestmove = JUndefined \<rparr>))
            after_e4 = Some s' \<and>
      error s' = Some (js ''Engine HTTP 503'') \<and> truthy (error s') \<and> \<not> busy s' \<and>
      inflight s' = [] \<and>
      heap s' = heap after_e4 \<and> game s' = game after_e4 \<and> position s' = position after_e4 \<and>
      history s' = history after_e4 \<and> lastMoveRef s' = lastMoveRef after_e4) \<and>
   (\<exists>s'. handle pawn_rules (Settle 0 (FetchThrew (Some (js ''Failed to fetch'')))) after_e4
            = Some s' \<and>
      error s' = Some (js ''Failed to fetch'') \<and> truthy (error s') \<and> \<not> busy s' \<and>
      inflight s' = [] \<and>
      heap s' = heap after_e4 \<and> game s' = game after_e4 \<and> position s' = position after_e4 \<and>
      history s' = history after_e4 \<and> lastMoveRef s' = lastMoveRef after_e4) \<and>
   (\<exists>s'. handle pawn_rules (Settle 0 (FetchThrew None)) after_e4 = Some s' \<and>
      error s' = Some callErrorMessage \<and> truthy (error s') \<and> \<not> busy s' \<and>
      inflight s' = [] \<and>
      heap s' = heap after_e4 \<and> game s' = game after_e4 \<and> position s' = position after_e4 \<and>
      history s' = history after_e4 \<and> lastMoveRef s' = lastMoveRef after_e4)"
proof -
  let ?down = "Http 503 \<lparr> evaluation = JUndefined, mate = JUndefined, bestmove = JUndefined \<rparr>"
  let ?failed = "FetchThrew (Some (js ''Failed to fetch''))"
  have a: "0 < length (inflight after_e4)" by (simp add: after_e4_def)
  have e: "take 0 (inflight after_e4) @ drop (Suc 0) (inflight after_e4) = []"
    by (simp add: after_e4_def)
  have p: "parseBestMove (Some (js ''bestmove (none)'')) = None" by code_simp
  have d: "js ''Engine HTTP '' @ decimal 503 = js ''Engine HTTP 503''" by code_simp
  have n: "?failed \<noteq> FetchThrew (Some [])" by (simp add: js_def)
  have h1: "(\<exists>msg. reply ''bestmove (none)'' = FetchThrew msg) \<or>
         (\<exists>status json. reply ''bestmove (none)'' = Http status json \<and>
            (\<not> (200 \<le> status \<and> status \<le> 299) \<or>
             parseBestMove (case bestmove json of JString b \<Rightarrow> Some b | _ \<Rightarrow> None) = None))"
    using p by (simp add: reply_def)
  have h2: "(\<exists>msg. ?down = FetchThrew msg) \<or>
         (\<exists>status json. ?down = Http status json \<and>
            (\<not> (200 \<le> status \<and> status \<le> 299) \<or>
             parseBestMove (case bestmove json of JString b \<Rightarrow> Some b | _ \<Rightarrow> None) = None))"
    by simp
  have h3: "(\<exists>msg. FetchThrew x = FetchThrew msg) \<or>
         (\<exists>status json. FetchThrew x = Http status json \<and>
            (\<not> (200 \<le> status \<and> status \<le> 299) \<or>
             parseBestMove (case bestmove json of JString b \<Rightarrow> Some b | _ \<Rightarrow> None) = None))"
    for x by simp
  have c1: "\<exists>s'. handle pawn_rules (Settle 0 (reply ''bestmove (none)'')) after_e4 = Some s' \<and>
      error s' = Some noMoveMessage \<and> truthy (error s') \<and> \<not> busy s' \<and> inflight s' = [] \<and>
      heap s' = heap after_e4 \<and> game s' = game after_e4 \<and> position s' = position after_e4 \<and>
      history s' = history after_e4 \<and> lastMoveRef s' = lastMoveRef after_e4"
    using engine_failure_is_soft[OF a h1, of pawn_rules] unfolding e by (simp add: reply_def)
  have c2: "\<exists>s'. handle pawn_rules (Settle 0 ?down) after_e4 = Some s' \<and>
      error s' = Some (js ''Engine HTTP 503'') \<and> truthy (error s') \<and> \<not> busy s' \<and>
      inflight s' = [] \<and>
      heap s' = heap after_e4 \<and> game s' = game after_e4 \<and> position s' = position after_e4 \<and>
      history s' = history after_e4 \<and> lastMoveRef s' = lastMoveRef after_e4"
    using engine_failure_is_soft[OF a h2, of pawn_rules] unfolding e by (simp add: d)
  have c3: "\<exists>s'. handle pawn_rules (Settle 0 ?failed) after_e4 = Some s' \<and>
      error s' = Some (js ''Failed to fetch'') \<and> truthy (error s') \<and> \<not> busy s' \<and>
      inflight s' = [] \<and>
      heap s' = heap after_e4 \<and> game s' = game after_e4 \<and> position s' = position after_e4 \<and>
      history s' = history after_e4 \<and> lastMoveRef s' = lastMoveRef after_e4"
    using engine_failure_is_soft[OF a h3[of "Some (js ''Failed to fetch'')"], of pawn_rules] n
    unfolding e by simp
  have c4: "\<exists>s'. handle pawn_rules (Settle 0 (FetchThrew None)) after_e4 = Some s' \<and>
      error s' = Some callErrorMessage \<and> truthy (error s') \<and> \<not> busy s' \<and>
      inflight s' = [] \<and>
      heap s' = heap after_e4 \<and> game s' = game after_e4 \<and> position s' = position after_e4 \<and>
      history s' = history after_e4 \<and> lastMoveRef s' = lastMoveRef after_e4"
    using engine_failure_is_soft[OF a h3[of None], of pawn_rules] unfolding e by simp
  from a p c1 c2 c3 c4 show ?thesis by blast
qed

text \<open>
  A fetch that throws a value whose message is the empty string leaves \<open>error\<close> the empty
  string, which the view does not show. And after e2-e4 and New (Black), whose timer
  sends a second request, a 503 to the first request clears \<open>busy\<close> while the second is
  still pending.
\<close>

theorem empty_thrown_message_counterexample:
  "map_option (\<lambda>s. (error s, truthy (error s), busy s))
     (run pawn_rules [Click (js ''e2''), Click (js ''e4''), Settle 0 (FetchThrew (Some []))]
        (init pawn_rules))
     = Some (Some [], False, False) \<and>
   map_option (\<lambda>s. (busy s, length (inflight s)))
     (run pawn_rules
        [Click (js ''e2''), Click (js ''e4''), NewGame Black, TimerFires,
         Settle 0 (Http 503 \<lparr> evaluation = JUndefined, mate = JUndefined, bestmove = JUndefined \<rparr>)]
        (init pawn_rules))
     = Some (False, 1)"
proof -
  let ?down = "Http 503 \<lparr> evaluation = JUndefined, mate = JUndefined, bestmove = JUndefined \<rparr>"
  have r1: "map_option (\<lambda>s. (error s, truthy (error s), busy s))
      (run pawn_rules [Settle 0 (FetchThrew (Some []))] after_e4) = Some (Some [], False, False)"
    by code_simp
  have r2: "map_option (\<lambda>s. (busy s, length (inflight s)))
      (run pawn_rules [NewGame Black, TimerFires, Settle 0 ?down] after_e4) = Some (False, 1)"
    by code_simp
  have s1: "run pawn_rules [Click (js ''e2''), Click (js ''e4''), Settle 0 (FetchThrew (Some []))]
        (init pawn_rules)
      = run pawn_rules [Settle 0 (FetchThrew (Some []))] after_e4"
    using run_after[OF reach_after_e4, of "[Settle 0 (FetchThrew (Some []))]"]
    by (simp only: append.simps)
  have s2: "run pawn_rules [Click (js ''e2''), Click (js ''e4''), NewGame Black, TimerFires,
        Settle 0 ?down] (init pawn_rules)
      = run pawn_rules [NewGame Black, TimerFires, Settle 0 ?down] after_e4"
    using run_after[OF reach_after_e4, of "[NewGame Black, TimerFires, Settle 0 ?down]"]
    by (simp only: append.simps)
  show ?thesis unfolding s1 s2 using r1 r2 by blast
qed

text \<open>
  C2, as the code has it. While \<open>busy\<close> is set the Engine Move button is disabled, so
  pressing it changes nothing. \<open>engineMove\<close> itself never reads \<open>busy\<close>: whenever the oracle
  is enabled and the game of its closure is not over, it sets \<open>busy\<close> and issues a request,
  also when one is pending.
\<close>

theorem busy_guard_is_on_the_button:
  "(busy s \<longrightarrow> engineButton R s = s) \<and>
   (clo_enabled c \<and> \<not> isGameOver R (heap s ! clo_game c) \<longrightarrow>
      busy (engineMove R c fenNow s) \<and>
      inflight (engineMove R c fenNow s) = inflight s @
        [\<lparr> req_game = clo_game c,
           req_fen = (case fenNow of Some f \<Rightarrow> f | None \<Rightarrow> fen R (heap s ! clo_game c)),
           req_depth = min (clo_depth c) 15 \<rparr>])"
  by (simp add: engineButton_def engineMove_def Let_def)

theorem busy_guard_witness:
  "busy after_e4 \<and> engineButton pawn_rules after_e4 = after_e4 \<and>
   \<not> isGameOver pawn_rules (heap after_e4 ! 1) \<and>
   busy (engineMove pawn_rules \<lparr> clo_game = 1, clo_depth = 12, clo_enabled = True \<rparr> None after_e4) \<and>
   inflight (engineMove pawn_rules \<lparr> clo_game = 1, clo_depth = 12, clo_enabled = True \<rparr> None
               after_e4)
     = [\<lparr> req_game = 0, req_fen = fen_e4, req_depth = 12 \<rparr>,
        \<lparr> req_game = 1, req_fen = fen_e4, req_depth = 12 \<rparr>]"
proof -
  let ?c = "\<lparr> clo_game = 1, clo_depth = 12, clo_enabled = True \<rparr>"
  have b: "busy after_e4" by (simp add: after_e4_def)
  have o: "\<not> isGameOver pawn_rules (heap after_e4 ! clo_game ?c)" by code_simp
  have e: "clo_enabled ?c" by simp
  from busy_guard_is_on_the_button[of after_e4 pawn_rules ?c None] b o e
  have "engineButton pawn_rules after_e4 = after_e4"
    and "busy (engineMove pawn_rules ?c None after_e4)"
    and "inflight (engineMove pawn_rules ?c None after_e4) = inflight after_e4 @
        [\<lparr> req_game = clo_game ?c,
           req_fen = (case None of Some f \<Rightarrow> f | None \<Rightarrow> fen pawn_rules (heap after_e4 ! clo_game ?c)),
           req_depth = min (clo_depth ?c) 15 \<rparr>]"
    by blast+
  then show ?thesis using b o by (simp add: after_e4_def pawn_rules_def)
qed

text \<open>
  With a request pending, \<open>engineMove\<close> changes the state; and when New (Black) is
  pressed while the reply to e2-e4 is awaited, the timer of \<open>newGame\<close> issues a second
  request.
\<close>

theorem engineMove_while_busy_counterexample:
  "busy after_e4 \<and>
   engineMove pawn_rules \<lparr> clo_game = game after_e4, clo_depth = engineDepth after_e4,
                            clo_enabled = engineEnabled after_e4 \<rparr> None after_e4 \<noteq> after_e4 \<and>
   map_option (\<lambda>s. (busy s, inflight s))
     (run pawn_rules [Click (js ''e2''), Click (js ''e4''), NewGame Black] (init pawn_rules))
     = Some (True, [\<lparr> req_game = 0, req_fen = fen_e4, req_depth = 12 \<rparr>]) \<and>
   map_option (\<lambda>s. (busy s, inflight s))
     (run pawn_rules [Click (js ''e2''), Click (js ''e4''), NewGame Black, TimerFires]
        (init pawn_rules))
     = Some (True, [\<lparr> req_game = 0, req_fen = fen_e4, req_depth = 12 \<rparr>,
                    \<lparr> req_game = 1, req_fen = new_chess pawn_rules, req_depth = 12 \<rparr>])"
proof -
  have b: "busy after_e4" by (simp add: after_e4_def)
  have "length (inflight (engineMove pawn_rules \<lparr> clo_game = game after_e4,
      clo_depth = engineDepth after_e4, clo_enabled = engineEnabled after_e4 \<rparr> None after_e4)) = 2"
    by code_simp
  moreover have "length (inflight after_e4) = 1" by (simp add: after_e4_def)
  ultimately have n: "engineMove pawn_rules \<lparr> clo_game = game after_e4,
      clo_depth = engineDepth after_e4, clo_enabled = engineEnabled after_e4 \<rparr> None after_e4
      \<noteq> after_e4"
    by auto
  have r1: "map_option (\<lambda>s. (busy s, inflight s)) (run pawn_rules [NewGame Black] after_e4)
      = Some (True, [\<lparr> req_game = 0, req_fen = fen_e4, req_depth = 12 \<rparr>])"
    by code_simp
  have r2: "map_option (\<lambda>s. (busy s, inflight s)) (run pawn_rules [NewGame Black, TimerFires] after_e4)
      = Some (True, [\<lparr> req_game = 0, req_fen = fen_e4, req_depth = 12 \<rparr>,
                    \<lparr> req_game = 1, req_fen = new_chess pawn_rules, req_depth = 12 \<rparr>])"
    by code_simp
  have s1: "run pawn_rules [Click (js ''e2''), Click (js ''e4''), NewGame Black] (init pawn_rules)
      = run pawn_rules [NewGame Black] after_e4"
    using run_after[OF reach_after_e4, of "[NewGame Black]"] by (simp only: append.simps)
  have s2: "run pawn_rules [Click (js ''e2''), Click (js ''e4''), NewGame Black, TimerFires]
        (init pawn_rules)
      = run pawn_rules [NewGame Black, TimerFires] after_e4"
    using run_after[OF reach_after_e4, of "[NewGame Black, TimerFires]"]
    by (simp only: append.simps)
  show ?thesis unfolding s1 s2 using b n r1 r2 by blast
qed

lemma settle_lands:
  assumes "i < length (inflight t)"
  shows "\<exists>t'. handle R (Settle i outcome) t = Some t' \<and>
     (case fetchBestMove outcome of
        Inl msg \<Rightarrow> position t' = position t \<and> history t' = history t
      | Inr b \<Rightarrow>
          if truthy (bestUci b) then
            (case move R (heap t ! req_game (inflight t ! i)) (take 2 (the (bestUci b)))
                    (take 2 (drop 2 (the (bestUci b))))
                    (if length (the (bestUci b)) = 5 then Some [the (bestUci b) ! 4] else None) of
               Moved p' m \<Rightarrow> position t' = load R (fen R p') \<and> history t' = history t @ [m]
             | _ \<Rightarrow> position t' = position t \<and> history t' = history t)
          else position t' = position t \<and> history t' = history t)"
proof -
  let ?r = "inflight t ! i"
  let ?cut = "t\<lparr> inflight := take i (inflight t) @ drop (Suc i) (inflight t) \<rparr>"
  let ?t' = "engineMove_resume R ?r outcome ?cut"
  have h: "handle R (Settle i outcome) t = Some ?t'" using assms by (rule handle_Settle)
  have pc: "position ?cut = position t" and hc: "history ?cut = history t"
    by (simp_all add: position_def)
  have "case fetchBestMove outcome of
        Inl msg \<Rightarrow> position ?t' = position t \<and> history ?t' = history t
      | Inr b \<Rightarrow>
          if truthy (bestUci b) then
            (case move R (heap t ! req_game ?r) (take 2 (the (bestUci b)))
                    (take 2 (drop 2 (the (bestUci b))))
                    (if length (the (bestUci b)) = 5 then Some [the (bestUci b) ! 4] else None) of
               Moved p' m \<Rightarrow> position ?t' = load R (fen R p') \<and> history ?t' = history t @ [m]
             | _ \<Rightarrow> position ?t' = position t \<and> history ?t' = history t)
          else position ?t' = position t \<and> history ?t' = history t"
  proof (cases "fetchBestMove outcome")
    case (Inl msg)
    then show ?thesis by (simp add: resume_threw position_def)
  next
    case (Inr b)
    show ?thesis
    proof (cases "truthy (bestUci b)")
      case False
      then show ?thesis using Inr by (simp add: resume_no_token position_def)
    next
      case True
      let ?mv = "move R (heap t ! req_game ?r) (take 2 (the (bestUci b)))
                    (take 2 (drop 2 (the (bestUci b))))
                    (if length (the (bestUci b)) = 5 then Some [the (bestUci b) ! 4] else None)"
      let ?e = "?cut\<lparr> evalInfo := \<lparr> cp = eval b, mate_in = best_mate b \<rparr> \<rparr>"
      have hc': "heap ?cut = heap t" by simp
      have res: "?t' = (case ?mv of
            Moved p' m \<Rightarrow> (applied R (req_game ?r) p' m ?e)\<lparr> busy := False \<rparr>
          | Rejected \<Rightarrow> ?cut\<lparr> evalInfo := \<lparr> cp = eval b, mate_in = best_mate b \<rparr>, busy := False \<rparr>
          | Threw msg \<Rightarrow> ?cut\<lparr> evalInfo := \<lparr> cp = eval b, mate_in = best_mate b \<rparr>,
                            error := Some (caught msg), busy := False \<rparr>)"
        using resume_token[OF Inr True, of R ?r ?cut] unfolding hc' .
      show ?thesis
      proof (cases ?mv)
        case (Moved p' m)
        then have "?t' = (applied R (req_game ?r) p' m ?e)\<lparr> busy := False \<rparr>"
          using res by simp
        then have "position ?t' = load R (fen R p') \<and> history ?t' = history t @ [m]"
          by (simp add: position_busy position_applied history_applied)
        then show ?thesis using Inr True Moved by simp
      next
        case Rejected
        then have "?t' = ?cut\<lparr> evalInfo := \<lparr> cp = eval b, mate_in = best_mate b \<rparr>, busy := False \<rparr>"
          using res by simp
        then have "position ?t' = position t \<and> history ?t' = history t"
          by (simp add: position_def)
        then show ?thesis using Inr True Rejected by simp
      next
        case (Threw msg)
        then have "?t' = ?cut\<lparr> evalInfo := \<lparr> cp = eval b, mate_in = best_mate b \<rparr>,
                            error := Some (caught msg), busy := False \<rparr>"
          using res by simp
        then have "position ?t' = position t \<and> history ?t' = history t"
          by (simp add: position_def)
        then show ?thesis using Inr True Threw by simp
      qed
    qed
  qed
  with h show ?thesis by blast
qed

lemma newGame_keeps_requests:
  "inflight (newGame R playAs s) = inflight s \<and>
   (\<forall>a < length (heap s). heap (newGame R playAs s) ! a = heap s ! a) \<and>
   position (newGame R playAs s) = new_chess R \<and> history (newGame R playAs s) = []"
  by (simp add: newGame_def Let_def position_def nth_append)

text \<open>
  C1, as the code has it. \<open>newGame\<close> keeps the pending requests and the objects they
  closed over, and sets the starting position and an empty history. When a request
  settles, in any later state, its move is made on the object the request closed over: if
  the rules engine accepts it there, the position becomes that object's position after
  the move and the move is appended to the history; position and history are left as they
  are only when the fetch fails, the response has no valid token, or the rules engine
  refuses the move on that object.
\<close>

theorem stale_reply_lands_on_captured_game:
  "inflight (newGame R playAs s) = inflight s \<and>
   (\<forall>a < length (heap s). heap (newGame R playAs s) ! a = heap s ! a) \<and>
   position (newGame R playAs s) = new_chess R \<and> history (newGame R playAs s) = [] \<and>
   (i < length (inflight t) \<longrightarrow>
     (\<exists>t'. handle R (Settle i outcome) t = Some t' \<and>
       (case fetchBestMove outcome of
          Inl msg \<Rightarrow> position t' = position t \<and> history t' = history t
        | Inr b \<Rightarrow>
            if truthy (bestUci b) then
              (case move R (heap t ! req_game (inflight t ! i)) (take 2 (the (bestUci b)))
                      (take 2 (drop 2 (the (bestUci b))))
                      (if length (the (bestUci b)) = 5 then Some [the (bestUci b) ! 4] else None) of
                 Moved p' m \<Rightarrow> position t' = load R (fen R p') \<and> history t' = history t @ [m]
               | _ \<Rightarrow> position t' = position t \<and> history t' = history t)
            else position t' = position t \<and> history t' = history t)))"
  using newGame_keeps_requests[of R playAs s] settle_lands[of i t R outcome] by blast


theorem stale_reply_witness:
  "0 < length (inflight (newGame pawn_rules White after_e4)) \<and>
   inflight (newGame pawn_rules White after_e4) = inflight after_e4 \<and>
   heap (newGame pawn_rules White after_e4) ! req_game (inflight after_e4 ! 0) = fen_e4 \<and>
   position (newGame pawn_rules White after_e4) = new_chess pawn_rules \<and>
   (\<exists>t'. handle pawn_rules (Settle 0 (reply ''bestmove e7e5'')) (newGame pawn_rules White after_e4)
            = Some t' \<and>
         position t' = fen_e4_e5 \<and> history t' = [pawn_push ''e7'' ''e5''])"
proof -
  let ?u = "js ''e7e5''"
  let ?n = "newGame pawn_rules White after_e4"
  note inst = stale_reply_lands_on_captured_game[of pawn_rules White after_e4 0 ?n
      "reply ''bestmove e7e5''"]
  from inst have i: "inflight ?n = inflight after_e4"
    and o: "\<forall>a < length (heap after_e4). heap ?n ! a = heap after_e4 ! a"
    and p: "position ?n = new_chess pawn_rules" and hn: "history ?n = []"
    by blast+
  have a: "0 < length (inflight ?n)" unfolding i by (simp add: after_e4_def)
  have g: "req_game (inflight after_e4 ! 0) = 0" by (simp add: after_e4_def)
  have old: "heap ?n ! req_game (inflight after_e4 ! 0) = fen_e4"
    using o unfolding g by (simp add: after_e4_def)
  have f: "fetchBestMove (reply ''bestmove e7e5'') =
      Inr \<lparr> eval = Some 0, best_mate = JNull, bestUci = Some ?u \<rparr>"
    by code_simp
  have t: "truthy (Some ?u)" by code_simp
  have m: "move pawn_rules fen_e4 (take 2 ?u)
      (take 2 (drop 2 ?u)) (if length ?u = 5 then Some [?u ! 4] else None)
    = Moved fen_e4_e5 (pawn_push ''e7'' ''e5'')"
    by code_simp
  have l: "load pawn_rules (fen pawn_rules fen_e4_e5) = fen_e4_e5"
    by (simp add: pawn_rules_def)
  from inst a obtain t' where h: "handle pawn_rules (Settle 0 (reply ''bestmove e7e5'')) ?n = Some t'"
    and c: "case fetchBestMove (reply ''bestmove e7e5'') of
        Inl msg \<Rightarrow> position t' = position ?n \<and> history t' = history ?n
      | Inr b \<Rightarrow>
          if truthy (bestUci b) then
            (case move pawn_rules (heap ?n ! req_game (inflight ?n ! 0))
                    (take 2 (the (bestUci b))) (take 2 (drop 2 (the (bestUci b))))
                    (if length (the (bestUci b)) = 5 then Some [the (bestUci b) ! 4] else None) of
               Moved p' m \<Rightarrow> position t' = load pawn_rules (fen pawn_rules p') \<and>
                              history t' = history ?n @ [m]
             | _ \<Rightarrow> position t' = position ?n \<and> history t' = history ?n)
          else position t' = position ?n \<and> history t' = history ?n"
    by blast
  have "position t' = fen_e4_e5 \<and> history t' = [pawn_push ''e7'' ''e5'']"
    using c unfolding f sum.case best.simps option.sel if_P[OF t] i old m move_result.case l hn
    by simp
  with a i old p h show ?thesis by blast
qed

text \<open>
  After e2-e4, New (White) and then the reply e7-e5: the position is the one after
  1. e4 e5 and the history holds e5, where without the reply they are the starting
  position and the empty history.
\<close>

theorem stale_reply_counterexample:
  "map_option (\<lambda>s. (position s, history s))
     (run pawn_rules [Click (js ''e2''), Click (js ''e4''), NewGame White] (init pawn_rules))
     = Some (new_chess pawn_rules, []) \<and>
   map_option (\<lambda>s. (position s, history s))
     (run pawn_rules [Click (js ''e2''), Click (js ''e4''), NewGame White,
                      Settle 0 (reply ''bestmove e7e5'')] (init pawn_rules))
     = Some (fen_e4_e5, [pawn_push ''e7'' ''e5'']) \<and>
   fen_e4_e5 \<noteq> new_chess pawn_rules"
proof -
  have r1: "map_option (\<lambda>s. (position s, history s)) (run pawn_rules [NewGame White] after_e4)
      = Some (new_chess pawn_rules, [])"
    by code_simp
  have r2: "map_option (\<lambda>s. (position s, history s))
      (run pawn_rules [NewGame White, Settle 0 (reply ''bestmove e7e5'')] after_e4)
      = Some (fen_e4_e5, [pawn_push ''e7'' ''e5''])"
    by code_simp
  have r3: "fen_e4_e5 \<noteq> new_chess pawn_rules" by code_simp
  have s1: "run pawn_rules [Click (js ''e2''), Click (js ''e4''), NewGame White] (init pawn_rules)
      = run pawn_rules [NewGame White] after_e4"
    using run_after[OF reach_after_e4, of "[NewGame White]"] by (simp only: append.simps)
  have s2: "run pawn_rules [Click (js ''e2''), Click (js ''e4''), NewGame White,
        Settle 0 (reply ''bestmove e7e5'')] (init pawn_rules)
      = run pawn_rules [NewGame White, Settle 0 (reply ''bestmove e7e5'')] after_e4"
    using run_after[OF reach_after_e4, of "[NewGame White, Settle 0 (reply ''bestmove e7e5'')]"]
    by (simp only: append.simps)
  show ?thesis unfolding s1 s2 using r1 r2 r3 by blast
qed

section \<open>The ledger replays to the position\<close>

lemma replay_from_snoc:
  "replay_from R p (ms @ [m]) =
     (case replay_from R p ms of None \<Rightarrow> None | Some q \<Rightarrow> replay_from R q [m])"
  by (induction ms arbitrary: p) (auto split: move_result.splits)

lemma replay_applied:
  assumes F: "fen_determines_moves R"
    and inv: "replay R (history s) = Some (position s)"
    and q: "fen R q = fen R (position s)"
    and mv: "move R q f t pr = Moved p' m"
    and h: "history s1 = history s"
  shows "replay R (history (applied R a p' m s1)) = Some (position (applied R a p' m s1))"
proof -
  obtain q' m' where again: "move R (position s) (from_sq m) (to_sq m) (promotion m) = Moved q' m'"
      and same: "fen R q' = fen R p'"
    using F q mv unfolding fen_determines_moves_def by blast
  have "replay R (history s @ [m]) = replay_from R (position s) [m]"
    using inv by (simp add: replay_def replay_from_snoc)
  also have "\<dots> = Some (load R (fen R p'))" using again same by simp
  finally show ?thesis by (simp add: history_applied position_applied h)
qed

lemma engineMove_frame:
  "history (engineMove R c f s) = history s \<and> position (engineMove R c f s) = position s"
  by (simp add: engineMove_def position_def Let_def)

lemma rerender_frame:
  "history (rerender R s0 s) = history s \<and> position (rerender R s0 s) = position s"
  by (simp add: rerender_def position_def)

lemma ledger_ok_cong:
  "history s' = history s \<Longrightarrow> position s' = position s \<Longrightarrow> ledger_ok R s \<Longrightarrow> ledger_ok R s'"
  by (simp add: ledger_ok_def)

lemma onSquareClick_ledger:
  assumes F: "fen_determines_moves R" and ok: "ledger_ok R s"
  shows "ledger_ok R (onSquareClick R sq s)"
proof -
  let ?mv = "move R (position s) (the (selected s)) sq (Some (js ''q''))"
  show ?thesis
  proof (cases ?mv)
    case (Moved p' m)
    let ?a = "applied R (game s) p' m s"
    have a: "ledger_ok R ?a"
      using replay_applied[OF F _ refl Moved refl] ok by (simp add: ledger_ok_def)
    have b: "ledger_ok R (?a\<lparr> selected := None, legalTargets := [] \<rparr>)"
      using a by (rule ledger_ok_cong[rotated 2]) (simp_all add: position_def)
    have c: "ledger_ok R (engineMove R c f (?a\<lparr> selected := None, legalTargets := [] \<rparr>))" for c f
      using b by (rule ledger_ok_cong[rotated 2]) (simp_all add: engineMove_frame)
    have d: "ledger_ok R (s\<lparr> selected := x, legalTargets := y \<rparr>)" for x y
      using ok by (rule ledger_ok_cong[rotated 2]) (simp_all add: position_def)
    have e: "ledger_ok R (s\<lparr> promotionSquare := x \<rparr>)" for x
      using ok by (rule ledger_ok_cong[rotated 2]) (simp_all add: position_def)
    show ?thesis
      using ok b c d e Moved by (simp add: onSquareClick_def Let_def)
  next
    case Rejected
    have d: "ledger_ok R (s\<lparr> selected := x, legalTargets := y \<rparr>)" for x y
      using ok by (rule ledger_ok_cong[rotated 2]) (simp_all add: position_def)
    have e: "ledger_ok R (s\<lparr> promotionSquare := x \<rparr>)" for x
      using ok by (rule ledger_ok_cong[rotated 2]) (simp_all add: position_def)
    show ?thesis using ok d e Rejected by (simp add: onSquareClick_def Let_def)
  next
    case (Threw msg)
    have d: "ledger_ok R (s\<lparr> selected := x, legalTargets := y \<rparr>)" for x y
      using ok by (rule ledger_ok_cong[rotated 2]) (simp_all add: position_def)
    have e: "ledger_ok R (s\<lparr> promotionSquare := x \<rparr>)" for x
      using ok by (rule ledger_ok_cong[rotated 2]) (simp_all add: position_def)
    show ?thesis using ok d e Threw by (simp add: onSquareClick_def Let_def)
  qed
qed

lemma handlePromotion_ledger:
  assumes F: "fen_determines_moves R" and ok: "ledger_ok R s"
  shows "ledger_ok R (handlePromotion R pc s)"
proof -
  let ?mv = "move R (position s) (the (selected s)) (the (promotionSquare s)) (Some pc)"
  show ?thesis
  proof (cases ?mv)
    case (Moved p' m)
    let ?a = "applied R (game s) p' m s"
    let ?b = "?a\<lparr> promotionSquare := None, selected := None, legalTargets := [] \<rparr>"
    have a: "ledger_ok R ?a"
      using replay_applied[OF F _ refl Moved refl] ok by (simp add: ledger_ok_def)
    have b: "ledger_ok R ?b"
      using a by (rule ledger_ok_cong[rotated 2]) (simp_all add: position_def)
    have c: "ledger_ok R (engineMove R c f ?b)" for c f
      using b by (rule ledger_ok_cong[rotated 2]) (simp_all add: engineMove_frame)
    show ?thesis using ok b c Moved by (simp add: handlePromotion_def Let_def)
  next
    case Rejected
    then show ?thesis using ok by (simp add: handlePromotion_def)
  next
    case (Threw msg)
    then show ?thesis using ok by (simp add: handlePromotion_def)
  qed
qed

lemma newGame_ledger: "ledger_ok R (newGame R playAs s)"
  by (simp add: ledger_ok_def newGame_def Let_def replay_def position_def)

lemma engineButton_ledger: "ledger_ok R s \<Longrightarrow> ledger_ok R (engineButton R s)"
  by (simp add: ledger_ok_def engineButton_def engineMove_frame)

lemma resume_ledger:
  assumes F: "fen_determines_moves R" and ok: "ledger_ok R s"
    and cur: "accepts R (heap s ! req_game r) outcome \<Longrightarrow>
              fen R (heap s ! req_game r) = fen R (position s)"
    and h: "history s1 = history s" "heap s1 = heap s" "game s1 = game s"
  shows "ledger_ok R (engineMove_resume R r outcome s1)"
proof -
  have ok1: "ledger_ok R s1"
    using ok by (rule ledger_ok_cong[rotated 2]) (simp_all add: h position_def)
  have upd: "ledger_ok R (s1\<lparr> evalInfo := e, error := x, busy := y \<rparr>)"
       "ledger_ok R (s1\<lparr> evalInfo := e, busy := y \<rparr>)"
       "ledger_ok R (s1\<lparr> error := x, busy := y \<rparr>)" for e x y
    using ok1 by (simp_all add: ledger_ok_def position_def)
  show ?thesis
  proof (cases "fetchBestMove outcome")
    case (Inl msg)
    then show ?thesis using upd by (simp add: resume_threw)
  next
    case (Inr b)
    show ?thesis
    proof (cases "truthy (bestUci b)")
      case False
      then show ?thesis using Inr upd by (simp add: resume_no_token)
    next
      case True
      let ?mv = "move R (heap s ! req_game r) (take 2 (the (bestUci b)))
                    (take 2 (drop 2 (the (bestUci b))))
                    (if length (the (bestUci b)) = 5 then Some [the (bestUci b) ! 4] else None)"
      let ?e = "s1\<lparr> evalInfo := \<lparr> cp = eval b, mate_in = best_mate b \<rparr> \<rparr>"
      have he: "history ?e = history s" using h by simp
      show ?thesis
      proof (cases ?mv)
        case (Moved p' m)
        have "accepts R (heap s ! req_game r) outcome"
          using Inr True Moved by (simp add: accepts_def)
        from cur[OF this] have c: "fen R (heap s ! req_game r) = fen R (position s)" .
        have "ledger_ok R (applied R (req_game r) p' m ?e)"
          using replay_applied[OF F _ c Moved he] ok by (simp add: ledger_ok_def)
        then have "ledger_ok R ((applied R (req_game r) p' m ?e)\<lparr> busy := False \<rparr>)"
          by (rule ledger_ok_cong[rotated 2]) (simp_all add: position_def)
        then show ?thesis using Moved by (simp add: resume_token[OF Inr True] h)
      next
        case Rejected
        then show ?thesis using upd by (simp add: resume_token[OF Inr True] h)
      next
        case (Threw msg)
        then show ?thesis using upd by (simp add: resume_token[OF Inr True] h)
      qed
    qed
  qed
qed

lemma handle_ledger:
  assumes F: "fen_determines_moves R" and ok: "ledger_ok R s"
    and cur: "settles_current R s ev" and h: "handle R ev s = Some s'"
  shows "ledger_ok R s'"
proof (cases ev)
  case (Click sq)
  then show ?thesis using h onSquareClick_ledger[OF F ok] by (auto simp: handle_def)
next
  case (Promote pc)
  then show ?thesis using h handlePromotion_ledger[OF F ok] by (auto simp: handle_def)
next
  case EngineButton
  then show ?thesis using h engineButton_ledger[OF ok] by (auto simp: handle_def)
next
  case (NewGame playAs)
  then show ?thesis using h newGame_ledger by (auto simp: handle_def)
next
  case ToggleEngine
  then show ?thesis using h ok by (auto simp: handle_def ledger_ok_def position_def)
next
  case Flip
  then show ?thesis using h ok by (auto simp: handle_def ledger_ok_def position_def)
next
  case (SetDepth d)
  then show ?thesis using h ok by (auto simp: handle_def ledger_ok_def position_def)
next
  case TimerFires
  then obtain c f ts where t: "timers s = (c, f) # ts"
      and s': "s' = engineMove R c (Some f) (s\<lparr> timers := ts \<rparr>)"
    using h by (auto simp: handle_def split: list.splits)
  have "ledger_ok R (s\<lparr> timers := ts \<rparr>)"
    using ok by (simp add: ledger_ok_def position_def)
  then show ?thesis unfolding s'
    by (rule ledger_ok_cong[rotated 2]) (simp_all add: engineMove_frame)
next
  case (Settle i outcome)
  have i: "i < length (inflight s)"
    using h Settle by (simp add: handle_def split: if_splits)
  have c: "accepts R (heap s ! req_game (inflight s ! i)) outcome \<Longrightarrow>
      fen R (heap s ! req_game (inflight s ! i)) = fen R (position s)"
    using cur Settle i by simp
  have "s' = engineMove_resume R (inflight s ! i) outcome
          (s\<lparr> inflight := take i (inflight s) @ drop (Suc i) (inflight s) \<rparr>)"
    using h Settle i by (simp add: handle_Settle)
  then show ?thesis using resume_ledger[OF F ok c] by simp
qed

lemma step_ledger:
  assumes "fen_determines_moves R" "ledger_ok R s" "settles_current R s ev" "step R ev s = Some s'"
  shows "ledger_ok R s'"
proof -
  from assms(4) obtain s1 where h: "handle R ev s = Some s1" and s': "s' = rerender R s s1"
    by (auto simp: step_def)
  have "ledger_ok R s1" using handle_ledger[OF assms(1,2,3) h] .
  then show ?thesis unfolding s'
    by (rule ledger_ok_cong[rotated 2]) (simp_all add: rerender_frame)
qed

lemma run_current_ledger:
  "fen_determines_moves R \<Longrightarrow> ledger_ok R s \<Longrightarrow> run_current R evs s = Some s' \<Longrightarrow> ledger_ok R s'"
proof (induction evs arbitrary: s)
  case Nil
  then show ?case by simp
next
  case (Cons ev evs)
  from Cons.prems(3) obtain s1 where c: "settles_current R s ev" and st: "step R ev s = Some s1"
      and r: "run_current R evs s1 = Some s'"
    by (auto split: if_splits option.splits)
  from step_ledger[OF Cons.prems(1,2) c st] have "ledger_ok R s1" .
  from Cons.IH[OF Cons.prems(1) this r] show ?case .
qed

text \<open>
  C3, as the code has it. In every state reached from the initial session by events of
  which every response whose move is made settles on an object that holds the current
  position (by its FEN), replaying the history from the starting position gives the
  position in \<open>game\<close>. Responses that fail, carry no token or are refused by the rules
  engine may settle on any object. The rules engine is taken to decide a move from the
  FEN and to repeat a move it returned when given that move's squares and promotion.
\<close>

theorem history_replays_while_replies_settle_on_current:
  assumes "fen_determines_moves R" and "run_current R evs (init R) = Some s"
  shows "replay R (history s) = Some (position s)"
proof -
  have "ledger_ok R (init R)" by (simp add: ledger_ok_def init_def replay_def position_def)
  from run_current_ledger[OF assms(1) this assms(2)] show ?thesis by (simp add: ledger_ok_def)
qed

theorem history_replays_witness:
  "fen_determines_moves pawn_rules \<and>
   (\<exists>s. run_current pawn_rules
           [Click (js ''e2''), Click (js ''e4''), Settle 0 (reply ''bestmove e7e5'')]
           (init pawn_rules) = Some s \<and>
        history s = [pawn_push ''e2'' ''e4'', pawn_push ''e7'' ''e5''] \<and>
        replay pawn_rules (history s) = Some (position s)) \<and>
   (\<exists>s. run_current pawn_rules
           [Click (js ''e2''), Click (js ''e4''), NewGame White, Settle 0 (FetchThrew None)]
           (init pawn_rules) = Some s \<and>
        history s = [] \<and> error s = Some callErrorMessage \<and>
        replay pawn_rules (history s) = Some (position s)) \<and>
   (\<exists>s. run_current pawn_rules
           [Click (js ''e2''), Click (js ''e4''), NewGame White, Settle 0 (reply ''bestmove e2e4'')]
           (init pawn_rules) = Some s \<and>
        history s = [] \<and>
        replay pawn_rules (history s) = Some (position s))"
proof -
  let ?made = "[Click (js ''e2''), Click (js ''e4''), Settle 0 (reply ''bestmove e7e5'')]"
  let ?failed = "[Click (js ''e2''), Click (js ''e4''), NewGame White, Settle 0 (FetchThrew None)]"
  let ?refused = "[Click (js ''e2''), Click (js ''e4''), NewGame White,
                   Settle 0 (reply ''bestmove e2e4'')]"
  have "map_option history (run_current pawn_rules ?made (init pawn_rules))
      = Some [pawn_push ''e2'' ''e4'', pawn_push ''e7'' ''e5'']"
    by code_simp
  then obtain s1 where r1: "run_current pawn_rules ?made (init pawn_rules) = Some s1"
    and h1: "history s1 = [pawn_push ''e2'' ''e4'', pawn_push ''e7'' ''e5'']"
    by auto
  have "map_option (\<lambda>s. (history s, error s)) (run_current pawn_rules ?failed (init pawn_rules))
      = Some ([], Some callErrorMessage)"
    by code_simp
  then obtain s2 where r2: "run_current pawn_rules ?failed (init pawn_rules) = Some s2"
    and h2: "history s2 = []" "error s2 = Some callErrorMessage"
    by auto
  have "map_option history (run_current pawn_rules ?refused (init pawn_rules)) = Some []"
    by code_simp
  then obtain s3 where r3: "run_current pawn_rules ?refused (init pawn_rules) = Some s3"
    and h3: "history s3 = []"
    by auto
  note inst = history_replays_while_replies_settle_on_current[OF pawn_fen_determines_moves]
  from inst[OF r1] have p1: "replay pawn_rules (history s1) = Some (position s1)" .
  from inst[OF r2] have p2: "replay pawn_rules (history s2) = Some (position s2)" .
  from inst[OF r3] have p3: "replay pawn_rules (history s3) = Some (position s3)" .
  from r1 h1 p1 r2 h2 p2 r3 h3 p3 pawn_fen_determines_moves show ?thesis by blast
qed

text \<open>
  After e2-e4, New (White) and then the reply d7-d5 to the request sent after e2-e4: the
  history holds d5 alone, which the rules engine refuses from the starting position, while
  the position in \<open>game\<close> is the one after 1. e4 d5.
\<close>

theorem history_replay_counterexample:
  "map_option (\<lambda>s. (history s, position s, replay pawn_rules (history s)))
     (run pawn_rules
        [Click (js ''e2''), Click (js ''e4''), NewGame White, Settle 0 (reply ''bestmove d7d5'')]
        (init pawn_rules))
     = Some ([pawn_push ''d7'' ''d5''],
             js ''rnbqkbnr/ppp1pppp/8/3p4/4P3/8/PPPP1PPP/RNBQKBNR w KQkq - 0 1'',
             None)"
proof -
  let ?rest = "[NewGame White, Settle 0 (reply ''bestmove d7d5'')]"
  have r: "map_option (\<lambda>s. (history s, position s, replay pawn_rules (history s)))
      (run pawn_rules ?rest after_e4)
     = Some ([pawn_push ''d7'' ''d5''],
             js ''rnbqkbnr/ppp1pppp/8/3p4/4P3/8/PPPP1PPP/RNBQKBNR w KQkq - 0 1'',
             None)"
    by code_simp
  have s: "run pawn_rules
        [Click (js ''e2''), Click (js ''e4''), NewGame White, Settle 0 (reply ''bestmove d7d5'')]
        (init pawn_rules)
      = run pawn_rules ?rest after_e4"
    using run_after[OF reach_after_e4, of ?rest] by (simp only: append.simps)
  show ?thesis unfolding s using r by blast
qed

end
